theory Spec2Isabelle
  imports Complex_Main "HOL-Library.Word" "HOL-Library.List_Lexorder" "HOL-Library.Multiset"
begin

section \<open>JavaScript values used by the indexer\<close>

text \<open>
  A JavaScript string is a sequence of 16-bit code units; \<open>length\<close> counts code units
  and the regular expressions of \<open>background.js\<close> (no \<open>u\<close> flag) match code units.
  IndexedDB orders string keys code unit by code unit, which is the lexicographic order
  on lists.
\<close>

type_synonym code_unit = "16 word"
type_synonym jsstring = "code_unit list"
type_synonym bytes = "8 word list"

definition js :: "string \<Rightarrow> jsstring" where
  \<comment> \<open>an ASCII literal of the source as code units\<close>
  "js s = map of_char s"

text \<open>
  \<open>String.prototype.toLowerCase\<close> and \<open>String.prototype.normalize('NFD')\<close> are
  built-ins of the platform, driven by the Unicode tables. They are parameters of the
  model: every theorem holds for any pair of functions.
\<close>

record platform =
  toLowerCase :: "jsstring \<Rightarrow> jsstring"
  normalizeNFD :: "jsstring \<Rightarrow> jsstring"

definition isWhiteSpace :: "code_unit \<Rightarrow> bool" where
  \<comment> \<open>the class \<open>\s\<close> of an ECMAScript regular expression\<close>
  "isWhiteSpace c \<longleftrightarrow>
     c = 0x9 \<or> c = 0xA \<or> c = 0xB \<or> c = 0xC \<or> c = 0xD \<or> c = 0x20 \<or> c = 0xA0 \<or>
     c = 0x1680 \<or> (0x2000 \<le> c \<and> c \<le> 0x200A) \<or> c = 0x2028 \<or> c = 0x2029 \<or>
     c = 0x202F \<or> c = 0x205F \<or> c = 0x3000 \<or> c = 0xFEFF"

definition isDiacritic :: "code_unit \<Rightarrow> bool" where
  \<comment> \<open>the class of combining marks U+0300 to U+036F that \<open>normalizeText\<close> removes\<close>
  "isDiacritic c \<longleftrightarrow> 0x300 \<le> c \<and> c \<le> 0x36F"

function splitWhiteSpace :: "jsstring \<Rightarrow> jsstring \<Rightarrow> jsstring list" where
  \<comment> \<open>\<open>split(/\s+/)\<close>: the first argument is the piece being read\<close>
  "splitWhiteSpace piece [] = [piece]"
| "splitWhiteSpace piece (c # cs) =
     (if isWhiteSpace c then piece # splitWhiteSpace [] (dropWhile isWhiteSpace cs)
      else splitWhiteSpace (piece @ [c]) cs)"
  by pat_completeness auto
termination
  by (relation "measure (\<lambda>(piece, cs). length cs)")
     (auto simp: length_dropWhile_le less_Suc_eq_le)

definition normalizeText :: "platform \<Rightarrow> jsstring \<Rightarrow> jsstring list" where
  "normalizeText pf text =
     (if text = [] then []
      else filter (\<lambda>token. length token > 0)
             (splitWhiteSpace []
               (filter (\<lambda>c. \<not> isDiacritic c) (normalizeNFD pf (toLowerCase pf text)))))"

definition Set_add :: "'a list \<Rightarrow> 'a \<Rightarrow> 'a list" where
  \<comment> \<open>\<open>Set.prototype.add\<close>; a Set iterates in insertion order\<close>
  "Set_add s x = (if x \<in> set s then s else s @ [x])"

definition extractTokens :: "platform \<Rightarrow> jsstring \<Rightarrow> jsstring list" where
  "extractTokens pf text =
     foldl (\<lambda>tokens token. if length token \<ge> 2 then Set_add tokens token else tokens)
       [] (normalizeText pf text)"

section \<open>The object stores\<close>

text \<open>
  An IndexedDB object store with an in-line key path holds records ordered by their key,
  at most one per key. It is a list of records kept in key order; \<open>kf\<close> is the key path.
\<close>

definition store_get :: "('r \<Rightarrow> 'k) \<Rightarrow> 'k \<Rightarrow> 'r list \<Rightarrow> 'r option" where
  "store_get kf k st = find (\<lambda>r. kf r = k) st"

definition store_delete :: "('r \<Rightarrow> 'k) \<Rightarrow> 'k \<Rightarrow> 'r list \<Rightarrow> 'r list" where
  "store_delete kf k st = filter (\<lambda>r. kf r \<noteq> k) st"

definition store_put :: "('r \<Rightarrow> 'k::linorder) \<Rightarrow> 'r \<Rightarrow> 'r list \<Rightarrow> 'r list" where
  "store_put kf r st = insort_key kf r (store_delete kf (kf r) st)"

record video =
  vid :: jsstring
  url :: jsstring
  author :: "jsstring option"
  caption :: "jsstring option"
  hashtags :: "jsstring list option"
  viewedAt :: int

record posting =
  token :: jsstring
  ids :: "jsstring list"

record indexed =
  key :: jsstring
  videoId :: jsstring
  ts :: int

record vision_analysis =
  labels :: "jsstring list"
  analysisText :: jsstring
  objects :: "jsstring list"

record frame = indexed +
  blobData :: "bytes option"
  frameEmbedding :: "int list option"
  framePalette :: "jsstring list option"
  analysis :: "vision_analysis option"

record thumbnail = indexed +
  thumbUrl :: jsstring
  videoTimeMs :: int
  dataUrl :: jsstring
  width :: int
  height :: int

record db =
  videos :: "video list"
  frames :: "frame list"
  thumbnails :: "thumbnail list"
  invertedIndex :: "posting list"

definition emptyDB :: db where
  "emptyDB = \<lparr>videos = [], frames = [], thumbnails = [], invertedIndex = []\<rparr>"

section \<open>Inverted index and item ingestion\<close>

definition indexToken :: "jsstring \<Rightarrow> posting list \<Rightarrow> jsstring \<Rightarrow> posting list" where
  \<comment> \<open>one round of the loop of \<open>updateInvertedIndex\<close>\<close>
  "indexToken v idx tok =
     (case store_get token tok idx of
        Some entry \<Rightarrow>
          if v \<in> set (ids entry) then idx
          else store_put token (entry\<lparr>ids := ids entry @ [v]\<rparr>) idx
      | None \<Rightarrow> store_put token \<lparr>token = tok, ids = [v]\<rparr> idx)"

definition updateInvertedIndex :: "jsstring \<Rightarrow> jsstring list \<Rightarrow> posting list \<Rightarrow> posting list" where
  "updateInvertedIndex v tokens idx = foldl (indexToken v) idx tokens"

fun joinWith :: "jsstring \<Rightarrow> jsstring list \<Rightarrow> jsstring" where
  "joinWith sep [] = []"
| "joinWith sep [x] = x"
| "joinWith sep (x # y # xs) = x @ sep @ joinWith sep (y # xs)"

definition orEmpty :: "'a list option \<Rightarrow> 'a list" where
  \<comment> \<open>\<open>x || ''\<close> and \<open>x || []\<close>: an absent or empty field counts as empty\<close>
  "orEmpty x = (case x of None \<Rightarrow> [] | Some v \<Rightarrow> v)"

definition allText :: "video \<Rightarrow> jsstring" where
  "allText videoData =
     joinWith (js '' '')
       ([orEmpty (caption videoData)] @ orEmpty (hashtags videoData) @ [orEmpty (author videoData)])"

datatype video_reply = AlreadyIndexed | VideoSaved

text \<open>
  \<open>saveVideo\<close> answers \<open>{success: true, message: 'Video already indexed'}\<close>
  (\<open>AlreadyIndexed\<close>) or \<open>{success: true, message: 'Video saved'}\<close> (\<open>VideoSaved\<close>).
  The badge of the toolbar button is not part of the store and is left out.
\<close>

definition saveVideo :: "platform \<Rightarrow> db \<Rightarrow> video \<Rightarrow> db \<times> video_reply" where
  "saveVideo pf s videoData =
     (case store_get vid (vid videoData) (videos s) of
        Some existing \<Rightarrow> (s, AlreadyIndexed)
      | None \<Rightarrow>
          (let s1 = s\<lparr>videos := store_put vid videoData (videos s)\<rparr>;
               tokens = extractTokens pf (allText videoData);
               s2 = s1\<lparr>invertedIndex := updateInvertedIndex (vid videoData) tokens (invertedIndex s1)\<rparr>
           in (s2, VideoSaved)))"

section \<open>Search\<close>

fun Map_set :: "'k \<Rightarrow> 'v \<Rightarrow> ('k \<times> 'v) list \<Rightarrow> ('k \<times> 'v) list" where
  \<comment> \<open>\<open>Map.prototype.set\<close>: a Map iterates in the order of first insertion\<close>
  "Map_set k v [] = [(k, v)]"
| "Map_set k v ((k', v') # m) = (if k' = k then (k, v) # m else (k', v') # Map_set k v m)"

definition scoreId :: "(jsstring \<times> nat) list \<Rightarrow> jsstring \<Rightarrow> (jsstring \<times> nat) list" where
  \<comment> \<open>\<open>videoIdScores.set(id, (videoIdScores.get(id) || 0) + 1)\<close>\<close>
  "scoreId scores i = Map_set i ((case map_of scores i of Some c \<Rightarrow> c | None \<Rightarrow> 0) + 1) scores"

definition collectScores :: "db \<Rightarrow> jsstring list \<Rightarrow> (jsstring \<times> nat) list" where
  "collectScores s queryTokens =
     foldl (\<lambda>scores tok.
              case store_get token tok (invertedIndex s) of
                Some entry \<Rightarrow> foldl scoreId scores (ids entry)
              | None \<Rightarrow> scores)
       [] queryTokens"

text \<open>
  \<open>Array.prototype.sort\<close> is stable, and a stable sort by a key has one result only,
  so \<open>sort_key\<close> computes it; the comparator \<open>b[1] - a[1]\<close> orders by descending score.
\<close>

definition searchVideos :: "platform \<Rightarrow> db \<Rightarrow> jsstring \<Rightarrow> video list" where
  "searchVideos pf s query =
     (let queryTokens = extractTokens pf query in
      if length queryTokens = 0 then []
      else
        let videoIdScores = collectScores s queryTokens;
            sortedIds = map fst (sort_key (\<lambda>(i, sc). - int sc) videoIdScores)
        in List.map_filter (\<lambda>i. store_get vid i (videos s)) sortedIds)"

section \<open>Frames\<close>

text \<open>
  The \<open>blob\<close> field of a frame message, by the tests \<open>saveFrame\<close> makes on it.
  A Blob carries the outcome of its \<open>arrayBuffer()\<close> promise (\<open>Inl\<close> the message of a
  rejection).
\<close>

datatype blob_value =
    Undefined
  | Null
  | FalsyPrimitive
  | BlobObject "string + bytes"
  | ArrayBufferObject bytes
  | ByteLengthObject bytes
  | NumberArray "int list"
  | Unrecognized

datatype save_error =
    InvalidBlobType
  | Thrown string

text \<open>
  \<open>InvalidBlobType\<close> is the reply \<open>{success: false, error: 'Invalid blob type'}\<close>,
  \<open>Thrown m\<close> the reply \<open>{success: false, error: error.message}\<close> of a catch block.
\<close>

definition convertBlob :: "blob_value \<Rightarrow> save_error + bytes option" where
  "convertBlob v =
     (case v of
        Undefined \<Rightarrow> Inr None
      | Null \<Rightarrow> Inr None
      | FalsyPrimitive \<Rightarrow> Inr None
      | BlobObject outcome \<Rightarrow> (case outcome of Inl m \<Rightarrow> Inl (Thrown m) | Inr buf \<Rightarrow> Inr (Some buf))
      | ArrayBufferObject buf \<Rightarrow> Inr (Some buf)
      | ByteLengthObject buf \<Rightarrow> Inr (Some buf)
      | NumberArray xs \<Rightarrow> Inr (Some (map word_of_int xs))
      | Unrecognized \<Rightarrow> Inl InvalidBlobType)"

record frameData = indexed +
  blob :: blob_value
  imageEmbedding :: "int list option"
  colorPalette :: "jsstring list option"

record annotations =
  labelAnnotations :: "jsstring list option"
  fullTextAnnotation :: "jsstring option"
  localizedObjectAnnotations :: "jsstring list option"

datatype fetch_outcome =
    FetchRejected
  | HttpNotOk
  | BadBody
  | Annotated annotations

record settings =
  enableAI :: bool
  enableCloudVision :: bool
  cloudVisionApiKey :: jsstring

text \<open>
  What \<open>saveFrame\<close> gets from outside the store: the synced settings (\<open>None\<close> when
  \<open>chrome.storage.sync.get\<close> throws), the Cloud Vision service as a function of the
  image bytes and the API key, and the outcome of the put request on the frames store
  (\<open>Some m\<close> when the request fails with message \<open>m\<close>).
\<close>

record frame_env =
  storedSettings :: "settings option"
  cloudVision :: "bytes \<Rightarrow> jsstring \<Rightarrow> fetch_outcome"
  framePutError :: "string option"

definition analyzeImageWithCloudVision :: "fetch_outcome \<Rightarrow> vision_analysis option" where
  "analyzeImageWithCloudVision outcome =
     (case outcome of
        FetchRejected \<Rightarrow> None
      | HttpNotOk \<Rightarrow> None
      | BadBody \<Rightarrow> None
      | Annotated res \<Rightarrow>
          Some \<lparr>labels = orEmpty (labelAnnotations res),
                analysisText = orEmpty (fullTextAnnotation res),
                objects = orEmpty (localizedObjectAnnotations res)\<rparr>)"

definition addAll :: "'a list \<Rightarrow> 'a list \<Rightarrow> 'a list" where
  \<comment> \<open>\<open>xs.forEach(t => tokens.add(t))\<close>\<close>
  "addAll tokens xs = foldl Set_add tokens xs"

definition analysisTokens :: "platform \<Rightarrow> vision_analysis \<Rightarrow> jsstring list" where
  "analysisTokens pf an =
     (let t0 = (if analysisText an \<noteq> [] then addAll [] (extractTokens pf (analysisText an)) else []);
          t1 = foldl (\<lambda>tokens l. addAll tokens (extractTokens pf l)) t0 (labels an);
          t2 = foldl (\<lambda>tokens ob. addAll tokens (extractTokens pf ob)) t1 (objects an)
      in t2)"

definition analyzeStep :: "platform \<Rightarrow> frame_env \<Rightarrow> db \<Rightarrow> frame \<Rightarrow> db \<times> frame" where
  \<comment> \<open>the try block of \<open>saveFrame\<close> around the Cloud Vision call\<close>
  "analyzeStep pf env s frameToStore =
     (case storedSettings env of
        None \<Rightarrow> (s, frameToStore)
      | Some st \<Rightarrow>
          (case blobData frameToStore of
             None \<Rightarrow> (s, frameToStore)
           | Some buf \<Rightarrow>
               if enableAI st \<and> enableCloudVision st \<and> cloudVisionApiKey st \<noteq> [] then
                 (case analyzeImageWithCloudVision (cloudVision env buf (cloudVisionApiKey st)) of
                    None \<Rightarrow> (s, frameToStore)
                  | Some an \<Rightarrow>
                      (s\<lparr>invertedIndex :=
                           updateInvertedIndex (videoId frameToStore) (analysisTokens pf an)
                             (invertedIndex s)\<rparr>,
                       frameToStore\<lparr>analysis := Some an\<rparr>))
               else (s, frameToStore)))"

definition saveFrame :: "platform \<Rightarrow> frame_env \<Rightarrow> db \<Rightarrow> frameData \<Rightarrow> db \<times> (save_error + unit)" where
  "saveFrame pf env s fd =
     (case convertBlob (blob fd) of
        Inl e \<Rightarrow> (s, Inl e)
      | Inr blobData' \<Rightarrow>
          (let frameToStore =
                 \<lparr>key = key fd, videoId = videoId fd, ts = ts fd, blobData = blobData',
                  frameEmbedding = imageEmbedding fd, framePalette = colorPalette fd,
                  analysis = None\<rparr>;
               (s1, frameToStore1) = analyzeStep pf env s frameToStore
           in case framePutError env of
                Some m \<Rightarrow> (s1, Inl (Thrown m))
              | None \<Rightarrow> (s1\<lparr>frames := store_put key frameToStore1 (frames s1)\<rparr>, Inr ())))"

section \<open>Thumbnails\<close>

definition MAX_THUMBS_PER_VIDEO :: nat where
  "MAX_THUMBS_PER_VIDEO = 500"

definition deleteAll :: "'a indexed_scheme list \<Rightarrow> 'a indexed_scheme list \<Rightarrow> 'a indexed_scheme list" where
  \<comment> \<open>one delete request per record of the second list, by its key\<close>
  "deleteAll st victims = foldl (\<lambda>st' item. store_delete key (key item) st') st victims"

definition saveThumbnail :: "db \<Rightarrow> thumbnail \<Rightarrow> db" where
  "saveThumbnail s thumbData =
     (let existing = filter (\<lambda>t. videoId t = videoId thumbData) (thumbnails s);
          store1 =
            (if length existing \<ge> MAX_THUMBS_PER_VIDEO then
               let sorted = sort_key ts existing;
                   toRemove = take (length existing - MAX_THUMBS_PER_VIDEO + 1) sorted
               in deleteAll (thumbnails s) toRemove
             else thumbnails s)
      in s\<lparr>thumbnails := store_put key thumbData store1\<rparr>)"

section \<open>Retention\<close>

definition thirtyDays :: int where
  "thirtyDays = 30 * 24 * 60 * 60 * 1000"

definition deleteUpTo :: "int \<Rightarrow> 'a indexed_scheme list \<Rightarrow> 'a indexed_scheme list" where
  \<comment> \<open>a cursor on the index \<open>ts\<close> over \<open>IDBKeyRange.upperBound(bound)\<close>, deleting each record it visits\<close>
  "deleteUpTo bound st = deleteAll st (sort_key ts (filter (\<lambda>rec. ts rec \<le> bound) st))"

definition cleanupOldFrames :: "int \<Rightarrow> db \<Rightarrow> db" where
  \<comment> \<open>the first argument is \<open>Date.now()\<close>\<close>
  "cleanupOldFrames now s =
     (let thirtyDaysAgo = now - thirtyDays in
      s\<lparr>frames := deleteUpTo thirtyDaysAgo (frames s),
        thumbnails := deleteUpTo thirtyDaysAgo (thumbnails s)\<rparr>)"

definition MAX_FRAMES :: nat where
  "MAX_FRAMES = 10000"

definition checkDBSize :: "int \<Rightarrow> db \<Rightarrow> db" where
  "checkDBSize now s =
     (let frameCount = length (frames s) in
      if frameCount > MAX_FRAMES then cleanupOldFrames now s else s)"

definition retentionCycle :: "int \<Rightarrow> int \<Rightarrow> db \<Rightarrow> db" where
  \<comment> \<open>what the timer starts every hour: \<open>cleanupOldFrames\<close>, then \<open>checkDBSize\<close>\<close>
  "retentionCycle now1 now2 s = checkDBSize now2 (cleanupOldFrames now1 s)"

section \<open>Colour quantization and naming\<close>

record rgb =
  r :: int
  g :: int
  b :: int

record pixel = rgb +
  a :: int

record bucket = rgb +
  count :: nat

record colorResult =
  name :: "jsstring option"
  rgbOf :: rgb
  hex :: jsstring
  confidence :: real

definition COLOR_NAMES :: "(jsstring \<times> jsstring list) list" where
  "COLOR_NAMES =
    [
     ([0x111, 0x1ECF],
      map js [''#FF0000'', ''#DC143C'', ''#B22222'', ''#8B0000'', ''#FF6347'', ''#FF4500'']),
     ([0x68, 0x1ED3, 0x6E, 0x67],
      map js [''#FFC0CB'', ''#FF69B4'', ''#FF1493'', ''#FFB6C1'', ''#FFA07A'']),
     (js ''cam'',
      map js [''#FFA500'', ''#FF8C00'', ''#FF7F50'', ''#FF6347'']),
     ([0x76, 0xE0, 0x6E, 0x67],
      map js [''#FFFF00'', ''#FFD700'', ''#FFA500'', ''#FFD700'', ''#FFE135'']),
     ([0x76, 0xE0, 0x6E, 0x67, 0x20, 0x6E, 0x68, 0x1EA1, 0x74],
      map js [''#FFFFE0'', ''#FFFACD'', ''#FFEFD5'']),
     ([0x78, 0x61, 0x6E, 0x68, 0x20, 0x6C, 0xE1],
      map js [''#00FF00'', ''#32CD32'', ''#228B22'', ''#008000'', ''#00FF7F'', ''#00FA9A'']),
     ([0x78, 0x61, 0x6E, 0x68, 0x20, 0x6C, 0xE1, 0x20, 0x63, 0xE2, 0x79],
      map js [''#00FF00'', ''#32CD32'', ''#228B22'', ''#008000'']),
     ([0x78, 0x61, 0x6E, 0x68, 0x20, 0x6C, 0x1EE5, 0x63],
      map js [''#00FF00'', ''#32CD32'', ''#228B22'', ''#008000'']),
     ([0x78, 0x61, 0x6E, 0x68, 0x20, 0x64, 0x1B0, 0x1A1, 0x6E, 0x67],
      map js [''#0000FF'', ''#4169E1'', ''#1E90FF'', ''#0000CD'', ''#0066CC'']),
     (js ''xanh'',
      map js [''#0000FF'', ''#4169E1'', ''#1E90FF'', ''#0000CD'', ''#0066CC'', ''#00CED1'', ''#00BFFF'']),
     ([0x78, 0x61, 0x6E, 0x68, 0x20, 0x6E, 0x1B0, 0x1EDB, 0x63, 0x20, 0x62, 0x69, 0x1EC3, 0x6E],
      map js [''#0000FF'', ''#4169E1'', ''#1E90FF'', ''#0000CD'']),
     ([0x78, 0x61, 0x6E, 0x68, 0x20, 0x64, 0x61, 0x20, 0x74, 0x72, 0x1EDD, 0x69],
      map js [''#87CEEB'', ''#87CEFA'', ''#B0E0E6'', ''#ADD8E6'']),
     ([0x74, 0xED, 0x6D],
      map js [''#800080'', ''#9370DB'', ''#8B008B'', ''#9400D3'', ''#9932CC'', ''#BA55D3'']),
     ([0x6E, 0xE2, 0x75],
      map js [''#A52A2A'', ''#8B4513'', ''#654321'', ''#D2691E'', ''#CD853F'']),
     ([0x111, 0x65, 0x6E],
      map js [''#000000'', ''#1C1C1C'', ''#2F2F2F'', ''#3D3D3D'']),
     ([0x74, 0x72, 0x1EAF, 0x6E, 0x67],
      map js [''#FFFFFF'', ''#F5F5F5'', ''#FAFAFA'', ''#F0F0F0'']),
     ([0x78, 0xE1, 0x6D],
      map js [''#808080'', ''#A9A9A9'', ''#C0C0C0'', ''#D3D3D3'', ''#696969'']),
     (js ''grey'',
      map js [''#808080'', ''#A9A9A9'', ''#C0C0C0'', ''#D3D3D3'']),
     (js ''be'',
      map js [''#F5F5DC'', ''#F5DEB3'', ''#DEB887'']),
     (js ''kem'',
      map js [''#FFF8DC'', ''#FFE4B5'', ''#FFEBCD''])
    ]"

definition hexDigit :: "code_unit \<Rightarrow> int option" where
  \<comment> \<open>\<open>[a-f\d]\<close> under the flag \<open>i\<close>, read by \<open>parseInt(_, 16)\<close>\<close>
  "hexDigit c =
     (if 0x30 \<le> c \<and> c \<le> 0x39 then Some (uint c - 0x30)
      else if 0x61 \<le> c \<and> c \<le> 0x66 then Some (uint c - 0x61 + 10)
      else if 0x41 \<le> c \<and> c \<le> 0x46 then Some (uint c - 0x41 + 10)
      else None)"

definition hexPair :: "code_unit \<Rightarrow> code_unit \<Rightarrow> int option" where
  "hexPair hi lo =
     (case (hexDigit hi, hexDigit lo) of
        (Some x, Some y) \<Rightarrow> Some (16 * x + y)
      | _ \<Rightarrow> None)"

definition hexToRgb :: "jsstring \<Rightarrow> rgb option" where
  "hexToRgb h =
     (let digits = (case h of c # cs \<Rightarrow> if c = 0x23 then cs else h | [] \<Rightarrow> h) in
      case digits of
        [r1, r2, g1, g2, b1, b2] \<Rightarrow>
          (case (hexPair r1 r2, hexPair g1 g2, hexPair b1 b2) of
             (Some x, Some y, Some z) \<Rightarrow> Some \<lparr>r = x, g = y, b = z\<rparr>
           | _ \<Rightarrow> None)
      | _ \<Rightarrow> None)"

fun digits16 :: "nat \<Rightarrow> jsstring" where
  "digits16 n =
     (if n < 16 then [of_char (''0123456789abcdef'' ! n)]
      else digits16 (n div 16) @ [of_char (''0123456789abcdef'' ! (n mod 16))])"

definition toString16 :: "int \<Rightarrow> jsstring" where
  \<comment> \<open>\<open>x.toString(16)\<close> of an integer\<close>
  "toString16 x = (if x < 0 then js ''-'' @ digits16 (nat (- x)) else digits16 (nat x))"

definition rgbToHex :: "int \<Rightarrow> int \<Rightarrow> int \<Rightarrow> jsstring" where
  "rgbToHex x y z =
     js ''#'' @ concat (map (\<lambda>c. let h = toString16 c in if length h = 1 then js ''0'' @ h else h) [x, y, z])"

definition colorDistance :: "'x rgb_scheme \<Rightarrow> 'y rgb_scheme \<Rightarrow> real" where
  "colorDistance rgb1 rgb2 =
     (let dr = r rgb1 - r rgb2; dg = g rgb1 - g rgb2; db = b rgb1 - b rgb2
      in sqrt (real_of_int (dr * dr + dg * dg + db * db)))"

text \<open>
  The state of the two loops of \<open>findNearestColorName\<close> is the pair
  \<open>(minDistance, nearestName)\<close>; \<open>None\<close> stands for \<open>Infinity\<close> and for \<open>null\<close>.
\<close>

definition nearer :: "'x rgb_scheme \<Rightarrow> jsstring \<Rightarrow> real option \<times> jsstring option \<Rightarrow> jsstring
                        \<Rightarrow> real option \<times> jsstring option" where
  "nearer rgb1 nm st h =
     (case hexToRgb h of
        None \<Rightarrow> st
      | Some colorRgb \<Rightarrow>
          (let distance = colorDistance rgb1 colorRgb in
           if (case fst st of None \<Rightarrow> True | Some minDistance \<Rightarrow> distance < minDistance)
           then (Some distance, Some nm) else st))"

definition nearestIn :: "'x rgb_scheme \<Rightarrow> (jsstring \<times> jsstring list) list \<Rightarrow> jsstring option" where
  "nearestIn rgb1 lexicon =
     snd (foldl (\<lambda>st (nm, hexColors). foldl (nearer rgb1 nm) st hexColors) (None, None) lexicon)"

definition findNearestColorName :: "'x rgb_scheme \<Rightarrow> jsstring option" where
  "findNearestColorName rgb1 = nearestIn rgb1 COLOR_NAMES"

definition channelRange :: "(pixel \<Rightarrow> int) \<Rightarrow> pixel list \<Rightarrow> int" where
  "channelRange ch box =
     (let cMin = foldl (\<lambda>m p. min m (ch p)) 255 box;
          cMax = foldl (\<lambda>m p. max m (ch p)) 0 box
      in cMax - cMin)"

definition splitBox :: "pixel list \<Rightarrow> pixel list list" where
  \<comment> \<open>what one box adds to \<open>newBoxes\<close>\<close>
  "splitBox box =
     (if length box = 0 then []
      else
        let rRange = channelRange r box;
            gRange = channelRange g box;
            bRange = channelRange b box;
            maxRange = max (max rRange gRange) bRange
        in if maxRange = 0 then [box]
           else
             let sortChannel = (if gRange = maxRange then g else if bRange = maxRange then b else r);
                 sorted = sort_key sortChannel box;
                 median = length box div 2
             in [take median sorted, drop median sorted])"

partial_function (option) splitLoop :: "int \<Rightarrow> nat \<Rightarrow> pixel list list \<Rightarrow> pixel list list option" where
  \<comment> \<open>the \<open>while\<close> loop of \<open>medianCut\<close>; \<open>None\<close> when it never exits\<close>
  "splitLoop numColors n boxes =
     (if int (length boxes) < numColors \<and> length boxes < n
      then splitLoop numColors n (concat (map splitBox boxes))
      else Some boxes)"

declare splitLoop.simps [code]

definition roundDiv :: "int \<Rightarrow> nat \<Rightarrow> int" where
  \<comment> \<open>\<open>Math.round(s / c)\<close> of integers, \<open>c > 0\<close>: halves go up\<close>
  "roundDiv s c = (2 * s + int c) div (2 * int c)"

definition averageColor :: "pixel list \<Rightarrow> bucket" where
  "averageColor box =
     (let rSum = sum_list (map r box); gSum = sum_list (map g box); bSum = sum_list (map b box);
          c = length box
      in \<lparr>r = roundDiv rSum c, g = roundDiv gSum c, b = roundDiv bSum c, count = c\<rparr>)"

definition medianCut :: "pixel list \<Rightarrow> int \<Rightarrow> bucket list option" where
  "medianCut pixels numColors =
     (if length pixels = 0 then Some []
      else
        case splitLoop numColors (length pixels) [pixels] of
          None \<Rightarrow> None
        | Some boxes \<Rightarrow>
            Some (sort_key (\<lambda>c. - int (count c))
                   (map averageColor (filter (\<lambda>box. length box \<noteq> 0) boxes))))"

definition detectColors :: "pixel list \<Rightarrow> int \<Rightarrow> colorResult list option" where
  \<comment> \<open>on the pixels that \<open>extractPixels\<close> read from the canvas\<close>
  "detectColors pixels numColors =
     map_option
       (map (\<lambda>color.
          \<lparr>name = findNearestColorName color,
           rgbOf = \<lparr>r = r color, g = g color, b = b color\<rparr>,
           hex = rgbToHex (r color) (g color) (b color),
           confidence = min (real (count color) / real (length pixels)) 1\<rparr>))
       (medianCut pixels numColors)"

section \<open>Vocabulary of the statements\<close>

definition postingList :: "db \<Rightarrow> jsstring \<Rightarrow> jsstring list" where
  \<comment> \<open>the ids under a token; a missing entry counts as no ids\<close>
  "postingList s tok = (case store_get token tok (invertedIndex s) of Some entry \<Rightarrow> ids entry | None \<Rightarrow> [])"

definition matchCount :: "db \<Rightarrow> jsstring list \<Rightarrow> jsstring \<Rightarrow> nat" where
  \<comment> \<open>how many of the tokens have the id in their posting list\<close>
  "matchCount s toks i = length (filter (\<lambda>tok. i \<in> set (postingList s tok)) toks)"

definition firstEncounter :: "db \<Rightarrow> jsstring list \<Rightarrow> jsstring list" where
  \<comment> \<open>the ids in the order in which a walk through the posting lists of the tokens first meets them\<close>
  "firstEncounter s toks = foldl Set_add [] (concat (map (postingList s) toks))"

definition postingsDistinct :: "db \<Rightarrow> bool" where
  \<comment> \<open>no posting list holds an id twice\<close>
  "postingsDistinct s \<longleftrightarrow> (\<forall>p \<in> set (invertedIndex s). distinct (ids p))"

definition scoreOf :: "(jsstring \<times> nat) list \<Rightarrow> jsstring \<Rightarrow> nat" where
  \<comment> \<open>\<open>videoIdScores.get(id) || 0\<close>\<close>
  "scoreOf m i = (case map_of m i of Some c \<Rightarrow> c | None \<Rightarrow> 0)"

definition scoreStep :: "db \<Rightarrow> (jsstring \<times> nat) list \<Rightarrow> jsstring \<Rightarrow> (jsstring \<times> nat) list" where
  \<comment> \<open>one round of the loop of \<open>collectScores\<close>\<close>
  "scoreStep s scores tok = foldl scoreId scores (postingList s tok)"

definition storedFrame :: "frameData \<Rightarrow> bytes option \<Rightarrow> frame" where
  \<comment> \<open>the record \<open>frameToStore\<close> before any analysis is attached\<close>
  "storedFrame fd buf =
     \<lparr>key = key fd, videoId = videoId fd, ts = ts fd, blobData = buf,
      frameEmbedding = imageEmbedding fd, framePalette = colorPalette fd, analysis = None\<rparr>"

definition thumbsOf :: "jsstring \<Rightarrow> db \<Rightarrow> thumbnail list" where
  \<comment> \<open>\<open>index.getAll(videoId)\<close> on the thumbnails store\<close>
  "thumbsOf v s = filter (\<lambda>t. videoId t = v) (thumbnails s)"

definition saveThumbnails :: "db \<Rightarrow> thumbnail list \<Rightarrow> db" where
  \<comment> \<open>one call of \<open>saveThumbnail\<close> after the other\<close>
  "saveThumbnails s thumbs = foldl saveThumbnail s thumbs"

definition mostRecent :: "nat \<Rightarrow> thumbnail list \<Rightarrow> thumbnail list" where
  \<comment> \<open>the \<open>n\<close> thumbnails of a list with the greatest timestamps\<close>
  "mostRecent n thumbs = take n (sort_key (\<lambda>t. - ts t) thumbs)"

inductive reachable :: "db \<Rightarrow> bool" where
  \<comment> \<open>the stores that the write paths of \<open>background.js\<close> modelled here produce from the empty one\<close>
  opened: "reachable emptyDB"
| video: "reachable s \<Longrightarrow> reachable (fst (saveVideo pf s v))"
| frame: "reachable s \<Longrightarrow> reachable (fst (saveFrame pf env s fd))"
| thumb: "reachable s \<Longrightarrow> reachable (saveThumbnail s t)"
| cleanup: "reachable s \<Longrightarrow> reachable (cleanupOldFrames now s)"
| quota: "reachable s \<Longrightarrow> reachable (checkDBSize now s)"

definition wellFormed :: "db \<Rightarrow> bool" where
  \<comment> \<open>one record per key in every store, and no id twice in a posting list\<close>
  "wellFormed s \<longleftrightarrow>
     distinct (map vid (videos s)) \<and> distinct (map key (frames s)) \<and>
     distinct (map key (thumbnails s)) \<and> distinct (map token (invertedIndex s)) \<and>
     postingsDistinct s"

definition redBucket :: "nat \<Rightarrow> bucket" where
  \<comment> \<open>the average of the first half of a sorted sample of 4 m red and m blue pixels\<close>
  "redBucket m = \<lparr>r = 255, g = 0, b = 0, count = 5 * m div 2\<rparr>"

definition mixedBucket :: "nat \<Rightarrow> bucket" where
  \<comment> \<open>the average of the second half: the remaining red pixels and all the blue ones\<close>
  "mixedBucket m =
     \<lparr>r = roundDiv (255 * int (4 * m - 5 * m div 2)) (5 * m - 5 * m div 2), g = 0,
      b = roundDiv (255 * int m) (5 * m - 5 * m div 2), count = 5 * m - 5 * m div 2\<rparr>"

definition toResult :: "nat \<Rightarrow> bucket \<Rightarrow> colorResult" where
  \<comment> \<open>the entry that \<open>detectColors\<close> makes of a bucket, for a sample of \<open>n\<close> pixels\<close>
  "toResult n color =
     \<lparr>name = findNearestColorName color,
      rgbOf = \<lparr>r = r color, g = g color, b = b color\<rparr>,
      hex = rgbToHex (r color) (g color) (b color),
      confidence = min (real (count color) / real n) 1\<rparr>"

section \<open>Sample data\<close>

text \<open>
  A platform for the examples: \<open>asciiLower\<close> and \<open>decompose\<close> agree with
  \<open>toLowerCase\<close> and \<open>normalize('NFD')\<close> on strings of Basic Latin letters, spaces and the
  letters U+00E1 (a with acute) and U+00E0 (a with grave).
\<close>

definition asciiLower :: "code_unit \<Rightarrow> code_unit" where
  "asciiLower c = (if 0x41 \<le> c \<and> c \<le> 0x5A then c + 0x20 else c)"

definition decompose :: "code_unit \<Rightarrow> jsstring" where
  "decompose c = (if c = 0xE1 then [0x61, 0x301] else if c = 0xE0 then [0x61, 0x300] else [c])"

definition samplePlatform :: platform where
  "samplePlatform = \<lparr>toLowerCase = map asciiLower, normalizeNFD = (\<lambda>t. concat (map decompose t))\<rparr>"

definition accented :: jsstring where
  \<comment> \<open>the query \<open>ao mau\<close> with an acute on the first \<open>a\<close> and a grave on the second\<close>
  "accented = [0xE1, 0x6F, 0x20, 0x6D, 0xE0, 0x75]"

definition mkVideo :: "string \<Rightarrow> jsstring \<Rightarrow> video" where
  "mkVideo i cap = \<lparr>vid = js i, url = js ''https://example.com'', author = None, caption = Some cap,
      hashtags = None, viewedAt = 0\<rparr>"

definition tieDB :: db where
  \<comment> \<open>item A with caption \<open>ao\<close>, then item B with caption \<open>mau\<close>\<close>
  "tieDB = fst (saveVideo samplePlatform (fst (saveVideo samplePlatform emptyDB (mkVideo ''A'' (js ''ao''))))
                 (mkVideo ''B'' (js ''mau'')))"

definition rankDB :: db where
  \<comment> \<open>item B with caption \<open>ao\<close>, then item A with the accented caption\<close>
  "rankDB = fst (saveVideo samplePlatform (fst (saveVideo samplePlatform emptyDB (mkVideo ''B'' (js ''ao''))))
                  (mkVideo ''A'' accented))"

definition sampleFrameData :: "blob_value \<Rightarrow> frameData" where
  "sampleFrameData v =
     \<lparr>key = js ''v1:1700000000000'', videoId = js ''v1'', ts = 1700000000000, blob = v,
      imageEmbedding = None, colorPalette = None\<rparr>"

definition visionOn :: settings where
  "visionOn = \<lparr>enableAI = True, enableCloudVision = True, cloudVisionApiKey = js ''k''\<rparr>"

definition unreachableEnv :: frame_env where
  \<comment> \<open>Cloud Vision is switched on and every request to it is rejected\<close>
  "unreachableEnv =
     \<lparr>storedSettings = Some visionOn, cloudVision = (\<lambda>buf k. FetchRejected), framePutError = None\<rparr>"

definition horizonFrame :: "int \<Rightarrow> frame" where
  \<comment> \<open>a frame captured exactly thirty days before \<open>now\<close>\<close>
  "horizonFrame now =
     \<lparr>key = js ''v1:0'', videoId = js ''v1'', ts = now - thirtyDays, blobData = None,
      frameEmbedding = None, framePalette = None, analysis = None\<rparr>"

definition capThumb :: "nat \<Rightarrow> thumbnail" where
  \<comment> \<open>the thumbnail of item \<open>v1\<close> taken at time \<open>n\<close>; the key ends in \<open>n\<close> strokes\<close>
  "capThumb n =
     \<lparr>key = js ''v1:thumb:'' @ replicate n 0x31, videoId = js ''v1'', ts = int n,
      thumbUrl = js ''https://example.com'', videoTimeMs = 0, dataUrl = js ''data:,'',
      width = 1, height = 1\<rparr>"

definition orderedThumbs :: "thumbnail list" where
  \<comment> \<open>501 thumbnails in the order of their timestamps\<close>
  "orderedThumbs = map capThumb [0..<501]"

definition lateThumbs :: "thumbnail list" where
  \<comment> \<open>500 thumbnails in the order of their timestamps, then one older than all of them\<close>
  "lateThumbs = map capThumb [1..<501] @ [capThumb 0]"

definition redPixel :: pixel where
  "redPixel = \<lparr>r = 255, g = 0, b = 0, a = 255\<rparr>"

definition bluePixel :: pixel where
  "bluePixel = \<lparr>r = 0, g = 0, b = 255, a = 255\<rparr>"

definition sample10 :: "pixel list" where
  "sample10 = replicate 8 redPixel @ replicate 2 bluePixel"

definition redName :: jsstring where
  \<comment> \<open>the first name of the lexicon, the Vietnamese word for red\<close>
  "redName = [0x111, 0x1ECF]"

definition sample15 :: "pixel list" where
  "sample15 = replicate 12 redPixel @ replicate 3 bluePixel"

definition purpleName :: jsstring where
  "purpleName = [0x74, 0xED, 0x6D]"

section \<open>Facts about sets, maps and stores\<close>

lemma store_get_Some_key: "store_get kf k st = Some x \<Longrightarrow> kf x = k \<and> x \<in> set st"
  by (auto simp: store_get_def find_Some_iff)

lemma store_get_None_iff: "store_get kf k st = None \<longleftrightarrow> k \<notin> kf ` set st"
  by (auto simp: store_get_def find_None_iff)

lemma find_insort_key_other: "\<not> P x \<Longrightarrow> find P (insort_key f x xs) = find P xs"
  by (induction xs) auto

lemma find_insort_key_self: "P x \<Longrightarrow> \<forall>y \<in> set xs. \<not> P y \<Longrightarrow> find P (insort_key f x xs) = Some x"
  by (induction xs) auto

lemma find_filter_other: "(\<And>x. P x \<Longrightarrow> Q x) \<Longrightarrow> find P (filter Q xs) = find P xs"
  by (induction xs) auto

lemma set_store_put: "set (store_put kf x st) = insert x {y \<in> set st. kf y \<noteq> kf x}"
  by (auto simp: store_put_def store_delete_def set_insort_key)

lemma store_get_put: "store_get kf k (store_put kf x st) = (if k = kf x then Some x else store_get kf k st)"
proof (cases "k = kf x")
  case True
  then show ?thesis
    by (simp add: store_get_def store_put_def store_delete_def find_insort_key_self)
next
  case False
  then have "find (\<lambda>y. kf y = k) (filter (\<lambda>y. kf y \<noteq> kf x) st) = find (\<lambda>y. kf y = k) st"
    by (intro find_filter_other) auto
  with False show ?thesis
    by (simp add: store_get_def store_put_def store_delete_def find_insort_key_other)
qed

lemma distinct_store_put: "distinct (map kf st) \<Longrightarrow> distinct (map kf (store_put kf x st))"
  by (auto simp: store_put_def store_delete_def distinct_insort_key distinct_map_filter)

lemma count_key_distinct:
  "distinct (map kf st) \<Longrightarrow> k \<in> kf ` set st \<Longrightarrow> length (filter (\<lambda>y. kf y = k) st) = 1"
proof (induction st)
  case Nil then show ?case by simp
next
  case (Cons y st)
  show ?case
  proof (cases "kf y = k")
    case True
    with Cons.prems have "k \<notin> kf ` set st" by simp
    then have "filter (\<lambda>z. kf z = k) st = []"
      unfolding filter_empty_conv by blast
    with True show ?thesis by simp
  next
    case False
    with Cons show ?thesis by auto
  qed
qed

lemma distinct_of_distinct_map: "distinct (map f xs) \<Longrightarrow> distinct xs"
  by (simp add: distinct_map)

lemma set_Set_add: "set (Set_add xs x) = insert x (set xs)"
  by (auto simp: Set_add_def)

lemma distinct_Set_add: "distinct xs \<Longrightarrow> distinct (Set_add xs x)"
  by (auto simp: Set_add_def)

lemma set_foldl_Set_add: "set (foldl Set_add acc xs) = set acc \<union> set xs"
  by (induction xs arbitrary: acc) (auto simp: set_Set_add)

lemma distinct_foldl_Set_add: "distinct acc \<Longrightarrow> distinct (foldl Set_add acc xs)"
  by (induction xs arbitrary: acc) (auto simp: distinct_Set_add)

lemma distinct_foldl_cond_Set_add:
  "distinct acc \<Longrightarrow> distinct (foldl (\<lambda>tokens token. if P token then Set_add tokens token else tokens) acc xs)"
  by (induction xs arbitrary: acc) (auto simp: distinct_Set_add)

lemma distinct_extractTokens: "distinct (extractTokens pf q)"
  by (simp add: extractTokens_def distinct_foldl_cond_Set_add)

lemma map_fst_Map_set: "map fst (Map_set k v m) = Set_add (map fst m) k"
  by (induction m) (force simp: Set_add_def)+

lemma map_of_Map_set: "map_of (Map_set k v m) = (map_of m)(k \<mapsto> v)"
  by (induction m) (auto simp: fun_eq_iff)

lemma insort_key_map:
  "insort_key kf (h x) (map h ys) = map h (insort_key (\<lambda>y. kf (h y)) x ys)"
  by (induction ys) auto

lemma sort_key_map: "sort_key kf (map h xs) = map h (sort_key (\<lambda>y. kf (h y)) xs)"
  by (induction xs) (simp_all add: insort_key_map)

section \<open>The invariant of the posting lists\<close>

lemma postingsDistinct_indexToken:
  assumes "\<forall>p \<in> set idx. distinct (ids p)"
  shows "\<forall>p \<in> set (indexToken v idx tok). distinct (ids p)"
proof (cases "store_get token tok idx")
  case None
  with assms show ?thesis by (auto simp: indexToken_def set_store_put)
next
  case (Some entry)
  then have "entry \<in> set idx" by (auto dest: store_get_Some_key)
  with assms have "distinct (ids entry)" by blast
  with Some assms show ?thesis by (auto simp: indexToken_def set_store_put)
qed

lemma postingsDistinct_updateInvertedIndex:
  "\<forall>p \<in> set idx. distinct (ids p) \<Longrightarrow> \<forall>p \<in> set (updateInvertedIndex v toks idx). distinct (ids p)"
  unfolding updateInvertedIndex_def
proof (induction toks arbitrary: idx)
  case Nil then show ?case by simp
next
  case (Cons tok toks)
  from Cons.prems have "\<forall>p \<in> set (indexToken v idx tok). distinct (ids p)"
    by (rule postingsDistinct_indexToken)
  then show ?case using Cons.IH by simp
qed

lemma postingsDistinct_emptyDB: "postingsDistinct emptyDB"
  by (simp add: postingsDistinct_def emptyDB_def)

lemma postingsDistinct_saveVideo: "postingsDistinct s \<Longrightarrow> postingsDistinct (fst (saveVideo pf s v))"
proof (cases "store_get vid (vid v) (videos s)")
  case None
  assume "postingsDistinct s"
  then have "\<forall>p \<in> set (updateInvertedIndex (vid v) (extractTokens pf (allText v)) (invertedIndex s)).
               distinct (ids p)"
    unfolding postingsDistinct_def by (rule postingsDistinct_updateInvertedIndex)
  with None show ?thesis by (simp add: postingsDistinct_def saveVideo_def Let_def)
next
  case (Some x)
  assume "postingsDistinct s"
  with Some show ?thesis by (simp add: saveVideo_def)
qed

lemma postingsDistinct_analyzeStep:
  assumes "postingsDistinct s"
  shows "postingsDistinct (fst (analyzeStep pf env s fr))"
proof -
  have "\<And>an. \<forall>p \<in> set (updateInvertedIndex (videoId fr) (analysisTokens pf an) (invertedIndex s)).
               distinct (ids p)"
    using assms unfolding postingsDistinct_def by (rule postingsDistinct_updateInvertedIndex)
  with assms show ?thesis
    by (simp add: analyzeStep_def postingsDistinct_def split: option.splits)
qed

lemma postingsDistinct_saveFrame:
  assumes "postingsDistinct s"
  shows "postingsDistinct (fst (saveFrame pf env s fd))"
proof (cases "convertBlob (blob fd)")
  case (Inl e)
  with assms show ?thesis by (simp add: saveFrame_def)
next
  case (Inr bd)
  obtain s1 f1 where st: "analyzeStep pf env s
      \<lparr>key = key fd, videoId = videoId fd, ts = ts fd, blobData = bd,
       frameEmbedding = imageEmbedding fd, framePalette = colorPalette fd, analysis = None\<rparr> = (s1, f1)"
    by force
  from postingsDistinct_analyzeStep[OF assms, of pf env] st have "postingsDistinct s1"
    by (metis fst_conv)
  with Inr st show ?thesis
    by (simp add: saveFrame_def postingsDistinct_def split: option.splits)
qed

lemma distinct_postingList: "postingsDistinct s \<Longrightarrow> distinct (postingList s tok)"
  by (auto simp: postingsDistinct_def postingList_def split: option.splits dest: store_get_Some_key)

section \<open>Search\<close>

lemma scoreOf_Nil: "scoreOf [] i = 0"
  by (simp add: scoreOf_def)

lemma map_fst_scoreId: "map fst (scoreId m x) = Set_add (map fst m) x"
  by (simp add: scoreId_def map_fst_Map_set)

lemma scoreOf_scoreId: "scoreOf (scoreId m x) i = scoreOf m i + (if x = i then 1 else 0)"
  by (simp add: scoreId_def scoreOf_def map_of_Map_set)

lemma map_fst_foldl_scoreId: "map fst (foldl scoreId m xs) = foldl Set_add (map fst m) xs"
  by (induction xs arbitrary: m) (simp_all add: map_fst_scoreId)

lemma scoreOf_foldl_scoreId: "scoreOf (foldl scoreId m xs) i = scoreOf m i + count_list xs i"
  by (induction xs arbitrary: m) (simp_all add: scoreOf_scoreId)

lemma collectScores_alt: "collectScores s toks = foldl (scoreStep s) [] toks"
proof -
  have "(\<lambda>scores tok. case store_get token tok (invertedIndex s) of
           Some entry \<Rightarrow> foldl scoreId scores (ids entry) | None \<Rightarrow> scores) = scoreStep s"
    by (auto simp: fun_eq_iff scoreStep_def postingList_def split: option.splits)
  then show ?thesis by (simp add: collectScores_def)
qed

lemma map_fst_foldl_scoreStep:
  "map fst (foldl (scoreStep s) m toks) = foldl Set_add (map fst m) (concat (map (postingList s) toks))"
  by (induction toks arbitrary: m) (simp_all add: scoreStep_def map_fst_foldl_scoreId)

lemma scoreOf_foldl_scoreStep:
  "scoreOf (foldl (scoreStep s) m toks) i
     = scoreOf m i + sum_list (map (\<lambda>tok. count_list (postingList s tok) i) toks)"
  by (induction toks arbitrary: m) (simp_all add: scoreStep_def scoreOf_foldl_scoreId)

lemma map_fst_collectScores: "map fst (collectScores s toks) = firstEncounter s toks"
  by (simp add: collectScores_alt map_fst_foldl_scoreStep firstEncounter_def)

lemma count_list_distinct: "distinct xs \<Longrightarrow> count_list xs x = (if x \<in> set xs then 1 else 0)"
  by (induction xs) auto

lemma sum_count_postings:
  "\<forall>tok \<in> set toks. distinct (P tok) \<Longrightarrow>
     (\<Sum>tok\<leftarrow>toks. count_list (P tok) i) = length (filter (\<lambda>tok. i \<in> set (P tok)) toks)"
  by (induction toks) (auto simp: count_list_distinct)

lemma scoreOf_collectScores:
  assumes "\<forall>tok \<in> set toks. distinct (postingList s tok)"
  shows "scoreOf (collectScores s toks) i = matchCount s toks i"
  by (simp add: collectScores_alt scoreOf_foldl_scoreStep matchCount_def
        sum_count_postings[OF assms] scoreOf_Nil)

lemma set_map_filter_get:
  "set (List.map_filter (\<lambda>i. store_get vid i st) xs) = {v. \<exists>i \<in> set xs. store_get vid i st = Some v}"
  by (induction xs) (auto split: option.splits)

lemma distinct_firstEncounter: "distinct (firstEncounter s toks)"
  by (simp add: firstEncounter_def distinct_foldl_Set_add)

lemma set_firstEncounter: "set (firstEncounter s toks) = (\<Union>tok \<in> set toks. set (postingList s tok))"
  by (simp add: firstEncounter_def set_foldl_Set_add)

lemma collectScores_entries:
  assumes "\<forall>tok \<in> set toks. distinct (postingList s tok)"
  shows "collectScores s toks = map (\<lambda>i. (i, matchCount s toks i)) (firstEncounter s toks)"
proof -
  let ?m = "collectScores s toks"
  have d: "distinct (map fst ?m)"
    by (simp add: map_fst_collectScores distinct_firstEncounter)
  have "\<forall>p \<in> set ?m. snd p = matchCount s toks (fst p)"
  proof
    fix p assume "p \<in> set ?m"
    then have "map_of ?m (fst p) = Some (snd p)" using d by simp
    then have "scoreOf ?m (fst p) = snd p" by (simp add: scoreOf_def)
    then show "snd p = matchCount s toks (fst p)" using scoreOf_collectScores[OF assms] by simp
  qed
  then have "map (\<lambda>p. (fst p, matchCount s toks (fst p))) ?m = ?m"
    by (intro map_idI) (auto simp: prod_eq_iff)
  then have "?m = map (\<lambda>i. (i, matchCount s toks i)) (map fst ?m)"
    by (simp add: comp_def)
  then show ?thesis by (simp add: map_fst_collectScores)
qed

lemma map_filter_map_filter_vid:
  "filter (\<lambda>v. P (vid v)) (List.map_filter (\<lambda>i. store_get vid i st) xs)
     = List.map_filter (\<lambda>i. store_get vid i st) (filter P xs)"
proof (induction xs)
  case Nil then show ?case by (simp add: map_filter_simps)
next
  case (Cons x xs)
  then show ?case
    by (auto simp: map_filter_simps split: option.splits dest: store_get_Some_key)
qed

lemma sorted_wrt_map_filter_vid:
  assumes "sorted_wrt (\<lambda>i j. R i j) xs"
  shows "sorted_wrt (\<lambda>v w. R (vid v) (vid w)) (List.map_filter (\<lambda>i. store_get vid i st) xs)"
  using assms
proof (induction xs)
  case Nil then show ?case by (simp add: map_filter_simps)
next
  case (Cons x xs)
  have mem: "\<And>w. w \<in> set (List.map_filter (\<lambda>i. store_get vid i st) xs) \<Longrightarrow> vid w \<in> set xs"
    by (auto simp: set_map_filter_get dest: store_get_Some_key)
  from Cons show ?case
    by (auto simp: map_filter_simps split: option.splits dest: store_get_Some_key mem)
qed

lemma searchVideos_spec:
  assumes "\<forall>tok \<in> set (extractTokens pf q). distinct (postingList s tok)"
  shows "searchVideos pf s q =
           List.map_filter (\<lambda>i. store_get vid i (videos s))
             (sort_key (\<lambda>i. - int (matchCount s (extractTokens pf q) i))
                (firstEncounter s (extractTokens pf q)))"
proof (cases "extractTokens pf q = []")
  case True
  then show ?thesis
    by (simp add: searchVideos_def firstEncounter_def map_filter_simps)
next
  case False
  then show ?thesis
    by (simp add: searchVideos_def Let_def collectScores_entries[OF assms] sort_key_map comp_def)
qed

lemma set_searchVideos:
  "set (searchVideos pf s q) =
     {v. \<exists>i. store_get vid i (videos s) = Some v \<and> (\<exists>tok \<in> set (extractTokens pf q). i \<in> set (postingList s tok))}"
proof (cases "extractTokens pf q = []")
  case True
  then show ?thesis by (simp add: searchVideos_def)
next
  case False
  have "set (map fst (sort_key (\<lambda>(i, sc). - int sc) (collectScores s (extractTokens pf q))))
          = set (firstEncounter s (extractTokens pf q))"
    by (simp add: map_fst_collectScores[symmetric])
  with False show ?thesis
    by (auto simp: searchVideos_def Let_def set_map_filter_get set_firstEncounter simp del: set_map)
qed

lemma distinct_map_filter_get:
  "distinct xs \<Longrightarrow> distinct (List.map_filter (\<lambda>i. store_get vid i st) xs)"
  by (induction xs) (auto simp: set_map_filter_get split: option.splits dest: store_get_Some_key)

lemma distinct_searchVideos: "distinct (searchVideos pf s q)"
proof -
  let ?m = "collectScores s (extractTokens pf q)"
  have "distinct (map fst ?m)"
    by (simp add: map_fst_collectScores distinct_firstEncounter)
  then have "distinct ?m" "inj_on fst (set ?m)"
    by (simp_all add: distinct_map)
  then have "distinct (map fst (sort_key (\<lambda>(i, sc). - int sc) ?m))"
    by (simp add: distinct_map)
  then show ?thesis
    by (simp add: searchVideos_def Let_def distinct_map_filter_get)
qed

text \<open>
  C1. In a store whose posting lists hold no id twice (the invariant that
  \<open>updateInvertedIndex\<close> keeps), for every query: the query tokens are distinct; the score
  that \<open>searchVideos\<close> gives an id is the number of query tokens whose posting list holds
  the id, and it is positive; the result holds exactly the stored items whose id is in the
  posting list of at least one query token; the result is ordered by descending score; and
  the items of equal score stand in the order in which their ids were first met.
\<close>

theorem searchVideos_ranked:
  assumes "postingsDistinct s"
  shows "distinct (extractTokens pf q) \<and>
    (\<forall>p \<in> set (collectScores s (extractTokens pf q)).
        snd p = matchCount s (extractTokens pf q) (fst p) \<and> 0 < snd p) \<and>
    set (searchVideos pf s q) =
      {v. \<exists>i. store_get vid i (videos s) = Some v \<and>
              (\<exists>tok \<in> set (extractTokens pf q). i \<in> set (postingList s tok))} \<and>
    sorted_wrt (\<lambda>v w. matchCount s (extractTokens pf q) (vid v) \<ge> matchCount s (extractTokens pf q) (vid w))
      (searchVideos pf s q) \<and>
    (\<forall>n. filter (\<lambda>v. matchCount s (extractTokens pf q) (vid v) = n) (searchVideos pf s q) =
         List.map_filter (\<lambda>i. store_get vid i (videos s))
           (filter (\<lambda>i. matchCount s (extractTokens pf q) i = n) (firstEncounter s (extractTokens pf q))))"
proof -
  let ?toks = "extractTokens pf q"
  let ?mc = "matchCount s ?toks"
  let ?key = "\<lambda>i. - int (?mc i)"
  have dp: "\<forall>tok \<in> set ?toks. distinct (postingList s tok)"
    using assms by (simp add: distinct_postingList)
  have spec: "searchVideos pf s q =
      List.map_filter (\<lambda>i. store_get vid i (videos s)) (sort_key ?key (firstEncounter s ?toks))"
    by (rule searchVideos_spec[OF dp])
  have scores: "\<forall>p \<in> set (collectScores s ?toks). snd p = ?mc (fst p) \<and> 0 < snd p"
  proof
    fix p assume "p \<in> set (collectScores s ?toks)"
    then obtain i where i: "i \<in> set (firstEncounter s ?toks)" and p: "p = (i, ?mc i)"
      by (auto simp: collectScores_entries[OF dp])
    from i obtain tok where "tok \<in> set ?toks" "i \<in> set (postingList s tok)"
      by (auto simp: set_firstEncounter)
    then have "0 < ?mc i"
      by (auto simp: matchCount_def filter_empty_conv)
    with p show "snd p = ?mc (fst p) \<and> 0 < snd p" by simp
  qed
  have "sorted (map ?key (sort_key ?key (firstEncounter s ?toks)))" by simp
  then have "sorted_wrt (\<lambda>i j. ?mc i \<ge> ?mc j) (sort_key ?key (firstEncounter s ?toks))"
    by (simp add: sorted_map)
  then have sorted: "sorted_wrt (\<lambda>v w. ?mc (vid v) \<ge> ?mc (vid w)) (searchVideos pf s q)"
    unfolding spec by (rule sorted_wrt_map_filter_vid)
  have ties: "filter (\<lambda>v. ?mc (vid v) = n) (searchVideos pf s q) =
         List.map_filter (\<lambda>i. store_get vid i (videos s)) (filter (\<lambda>i. ?mc i = n) (firstEncounter s ?toks))" for n
  proof -
    have "filter (\<lambda>i. ?mc i = n) (sort_key ?key (firstEncounter s ?toks))
            = filter (\<lambda>i. ?key i = - int n) (sort_key ?key (firstEncounter s ?toks))"
      by simp
    also have "\<dots> = filter (\<lambda>i. ?key i = - int n) (firstEncounter s ?toks)"
      by (rule sort_key_stable)
    finally show ?thesis
      unfolding spec
      using map_filter_map_filter_vid[of "\<lambda>i. ?mc i = n" "videos s" "sort_key ?key (firstEncounter s ?toks)"]
      by simp
  qed
  show ?thesis
    using distinct_extractTokens scores set_searchVideos sorted ties by blast
qed

theorem searchVideos_ranked_witness:
  "postingsDistinct rankDB \<and>
   map vid (searchVideos samplePlatform rankDB (js ''ao mau'')) = [js ''A'', js ''B''] \<and>
   sorted_wrt (\<lambda>v w. matchCount rankDB (extractTokens samplePlatform (js ''ao mau'')) (vid v)
                      \<ge> matchCount rankDB (extractTokens samplePlatform (js ''ao mau'')) (vid w))
      (searchVideos samplePlatform rankDB (js ''ao mau''))"
proof -
  have h: "postingsDistinct rankDB"
    by (simp add: rankDB_def postingsDistinct_saveVideo postingsDistinct_emptyDB)
  have e: "map vid (searchVideos samplePlatform rankDB (js ''ao mau'')) = [js ''A'', js ''B'']"
    by code_simp
  from searchVideos_ranked[OF h, of samplePlatform "js ''ao mau''"] h e show ?thesis
    by blast
qed

text \<open>
  The result of a search is the stored items of the matched ids, sorted by descending score;
  the score of an id depends only on the set of the query tokens.
\<close>

lemma collectScores_pairs:
  "collectScores s toks
     = map (\<lambda>i. (i, scoreOf (collectScores s toks) i)) (firstEncounter s toks)"
proof -
  let ?m = "collectScores s toks"
  have d: "distinct (map fst ?m)"
    by (simp add: map_fst_collectScores distinct_firstEncounter)
  have "\<forall>p \<in> set ?m. snd p = scoreOf ?m (fst p)"
  proof
    fix p assume "p \<in> set ?m"
    then have "map_of ?m (fst p) = Some (snd p)" using d by simp
    then show "snd p = scoreOf ?m (fst p)" by (simp add: scoreOf_def)
  qed
  then have "map (\<lambda>p. (fst p, scoreOf ?m (fst p))) ?m = ?m"
    by (intro map_idI) (auto simp: prod_eq_iff)
  then have "?m = map (\<lambda>i. (i, scoreOf ?m i)) (map fst ?m)"
    by (simp add: comp_def)
  then show ?thesis by (simp add: map_fst_collectScores)
qed

lemma searchVideos_by_score:
  "searchVideos pf s q =
     List.map_filter (\<lambda>i. store_get vid i (videos s))
       (sort_key (\<lambda>i. - int (scoreOf (collectScores s (extractTokens pf q)) i))
          (firstEncounter s (extractTokens pf q)))"
proof (cases "extractTokens pf q = []")
  case True
  then show ?thesis
    by (simp add: searchVideos_def firstEncounter_def)
next
  case False
  have "map fst (sort_key (\<lambda>(i, sc). - int sc) (collectScores s (extractTokens pf q)))
      = sort_key (\<lambda>i. - int (scoreOf (collectScores s (extractTokens pf q)) i))
          (firstEncounter s (extractTokens pf q))"
    by (subst collectScores_pairs) (simp add: sort_key_map comp_def)
  with False show ?thesis
    by (simp add: searchVideos_def Let_def)
qed

lemma scoreOf_collectScores_sum:
  "scoreOf (collectScores s toks) i = (\<Sum>tok\<leftarrow>toks. count_list (postingList s tok) i)"
  by (simp add: collectScores_alt scoreOf_foldl_scoreStep scoreOf_Nil)

lemma scoreOf_collectScores_token_set:
  assumes "distinct toks1" and "distinct toks2" and "set toks1 = set toks2"
  shows "scoreOf (collectScores s toks1) i = scoreOf (collectScores s toks2) i"
  using assms by (simp add: scoreOf_collectScores_sum sum_list_distinct_conv_sum_set)

lemma sorted_searchVideos:
  "sorted_wrt (\<lambda>v w. scoreOf (collectScores s (extractTokens pf q)) (vid v)
                     \<ge> scoreOf (collectScores s (extractTokens pf q)) (vid w))
     (searchVideos pf s q)"
proof -
  let ?sc = "scoreOf (collectScores s (extractTokens pf q))"
  let ?key = "\<lambda>i. - int (?sc i)"
  have "sorted (map ?key (sort_key ?key (firstEncounter s (extractTokens pf q))))" by simp
  then have "sorted_wrt (\<lambda>i j. ?sc i \<ge> ?sc j) (sort_key ?key (firstEncounter s (extractTokens pf q)))"
    by (simp add: sorted_map)
  then show ?thesis
    unfolding searchVideos_by_score by (rule sorted_wrt_map_filter_vid)
qed

lemma sorted_same_mset_eq:
  fixes xs ys :: "'x::linorder list"
  assumes "sorted xs" and "sorted ys" and "mset xs = mset ys"
  shows "xs = ys"
proof -
  have "sort ys = xs" using assms(3,1) by (rule properties_for_sort)
  moreover have "sort ys = ys" using assms(2) by (rule sort_key_id_if_sorted[of "\<lambda>x. x", simplified])
  ultimately show ?thesis by simp
qed

text \<open>
  C7 (amended). Two queries with the same token sequence get the same result sequence. For
  two queries with the same token set, every id gets the same score in both searches (in a
  store without repeated ids in a posting list it is the number of query tokens whose posting
  list holds the id), both results hold the same items, each once, both are ordered by
  descending score, and the items at the same position of the two results have the same
  score: the results differ at most in the order of items of equal score.
\<close>

theorem search_same_tokens:
  "(extractTokens pf q1 = extractTokens pf q2 \<longrightarrow> searchVideos pf s q1 = searchVideos pf s q2) \<and>
   (set (extractTokens pf q1) = set (extractTokens pf q2) \<longrightarrow>
      (\<forall>i. scoreOf (collectScores s (extractTokens pf q1)) i
             = scoreOf (collectScores s (extractTokens pf q2)) i) \<and>
      (postingsDistinct s \<longrightarrow>
         (\<forall>i. scoreOf (collectScores s (extractTokens pf q1)) i = matchCount s (extractTokens pf q1) i)) \<and>
      set (searchVideos pf s q1) = set (searchVideos pf s q2) \<and>
      mset (searchVideos pf s q1) = mset (searchVideos pf s q2) \<and>
      distinct (searchVideos pf s q1) \<and> distinct (searchVideos pf s q2) \<and>
      length (searchVideos pf s q1) = length (searchVideos pf s q2) \<and>
      sorted_wrt (\<lambda>v w. scoreOf (collectScores s (extractTokens pf q1)) (vid v)
                         \<ge> scoreOf (collectScores s (extractTokens pf q1)) (vid w))
        (searchVideos pf s q1) \<and>
      sorted_wrt (\<lambda>v w. scoreOf (collectScores s (extractTokens pf q1)) (vid v)
                         \<ge> scoreOf (collectScores s (extractTokens pf q1)) (vid w))
        (searchVideos pf s q2) \<and>
      map (\<lambda>v. scoreOf (collectScores s (extractTokens pf q1)) (vid v)) (searchVideos pf s q1)
        = map (\<lambda>v. scoreOf (collectScores s (extractTokens pf q1)) (vid v)) (searchVideos pf s q2))"
proof -
  let ?t1 = "extractTokens pf q1" and ?t2 = "extractTokens pf q2"
  let ?r1 = "searchVideos pf s q1" and ?r2 = "searchVideos pf s q2"
  let ?sc = "scoreOf (collectScores s ?t1)"
  have first: "?r1 = ?r2" if "?t1 = ?t2"
    using that by (simp add: searchVideos_def)
  have rest: "(\<forall>i. ?sc i = scoreOf (collectScores s ?t2) i) \<and>
      (postingsDistinct s \<longrightarrow> (\<forall>i. ?sc i = matchCount s ?t1 i)) \<and>
      set ?r1 = set ?r2 \<and> mset ?r1 = mset ?r2 \<and> distinct ?r1 \<and> distinct ?r2 \<and>
      length ?r1 = length ?r2 \<and>
      sorted_wrt (\<lambda>v w. ?sc (vid v) \<ge> ?sc (vid w)) ?r1 \<and>
      sorted_wrt (\<lambda>v w. ?sc (vid v) \<ge> ?sc (vid w)) ?r2 \<and>
      map (\<lambda>v. ?sc (vid v)) ?r1 = map (\<lambda>v. ?sc (vid v)) ?r2"
    if same: "set ?t1 = set ?t2"
  proof -
    have sc: "?sc i = scoreOf (collectScores s ?t2) i" for i
      by (rule scoreOf_collectScores_token_set[OF distinct_extractTokens distinct_extractTokens same])
    have mc: "?sc i = matchCount s ?t1 i" if "postingsDistinct s" for i
      using that by (simp add: scoreOf_collectScores distinct_postingList)
    have sets: "set ?r1 = set ?r2"
      using same by (simp add: set_searchVideos)
    have d1: "distinct ?r1" and d2: "distinct ?r2"
      by (rule distinct_searchVideos)+
    have ms: "mset ?r1 = mset ?r2"
      using sets d1 d2 by (simp add: set_eq_iff_mset_eq_distinct)
    then have len: "length ?r1 = length ?r2"
      by (rule mset_eq_length)
    have s1: "sorted_wrt (\<lambda>v w. ?sc (vid v) \<ge> ?sc (vid w)) ?r1"
      by (rule sorted_searchVideos)
    have "sorted_wrt (\<lambda>v w. scoreOf (collectScores s ?t2) (vid v) \<ge> scoreOf (collectScores s ?t2) (vid w)) ?r2"
      by (rule sorted_searchVideos)
    then have s2: "sorted_wrt (\<lambda>v w. ?sc (vid v) \<ge> ?sc (vid w)) ?r2"
      by (simp add: sc)
    let ?k = "\<lambda>v. - int (?sc (vid v))"
    have "sorted (map ?k ?r1)" "sorted (map ?k ?r2)"
      using s1 s2 by (simp_all add: sorted_map)
    moreover have "mset (map ?k ?r1) = mset (map ?k ?r2)"
      using ms by (metis mset_map)
    ultimately have "map ?k ?r1 = map ?k ?r2"
      by (rule sorted_same_mset_eq)
    then have "map (\<lambda>x. nat (- x)) (map ?k ?r1) = map (\<lambda>x. nat (- x)) (map ?k ?r2)"
      by simp
    then have pos: "map (\<lambda>v. ?sc (vid v)) ?r1 = map (\<lambda>v. ?sc (vid v)) ?r2"
      by (simp add: comp_def)
    from sc mc sets ms d1 d2 len s1 s2 pos show ?thesis by blast
  qed
  from first rest show ?thesis by blast
qed

theorem search_same_tokens_witness:
  "extractTokens samplePlatform (js ''ao mau'') = extractTokens samplePlatform accented \<and>
   searchVideos samplePlatform rankDB (js ''ao mau'') = searchVideos samplePlatform rankDB accented \<and>
   set (extractTokens samplePlatform (js ''ao mau'')) = set (extractTokens samplePlatform (js ''mau ao'')) \<and>
   mset (searchVideos samplePlatform tieDB (js ''ao mau'')) = mset (searchVideos samplePlatform tieDB (js ''mau ao'')) \<and>
   map (\<lambda>v. scoreOf (collectScores rankDB (extractTokens samplePlatform (js ''ao mau''))) (vid v))
       (searchVideos samplePlatform rankDB (js ''ao mau''))
     = map (\<lambda>v. scoreOf (collectScores rankDB (extractTokens samplePlatform (js ''ao mau''))) (vid v))
       (searchVideos samplePlatform rankDB (js ''mau ao'')) \<and>
   map vid (searchVideos samplePlatform rankDB (js ''ao mau'')) = [js ''A'', js ''B''] \<and>
   map vid (searchVideos samplePlatform rankDB (js ''mau ao'')) = [js ''A'', js ''B'']"
proof -
  have t1: "extractTokens samplePlatform (js ''ao mau'') = [js ''ao'', js ''mau'']" by code_simp
  have t2: "extractTokens samplePlatform accented = [js ''ao'', js ''mau'']" by code_simp
  have t3: "extractTokens samplePlatform (js ''mau ao'') = [js ''mau'', js ''ao'']" by code_simp
  have e1: "extractTokens samplePlatform (js ''ao mau'') = extractTokens samplePlatform accented"
    by (simp add: t1 t2)
  have e2: "set (extractTokens samplePlatform (js ''ao mau'')) = set (extractTokens samplePlatform (js ''mau ao''))"
    by (simp add: t1 t3 insert_commute)
  have r1: "map vid (searchVideos samplePlatform rankDB (js ''ao mau'')) = [js ''A'', js ''B'']"
    by code_simp
  have r2: "map vid (searchVideos samplePlatform rankDB (js ''mau ao'')) = [js ''A'', js ''B'']"
    by code_simp
  from search_same_tokens[of samplePlatform "js ''ao mau''" accented rankDB]
       search_same_tokens[of samplePlatform "js ''ao mau''" "js ''mau ao''" tieDB]
       search_same_tokens[of samplePlatform "js ''ao mau''" "js ''mau ao''" rankDB] e1 e2 r1 r2
  show ?thesis by blast
qed

text \<open>
  C7 as stated fails: \<open>ao mau\<close> and \<open>mau ao\<close> have the same token set, and on a store
  where item A holds \<open>ao\<close> and item B holds \<open>mau\<close> the two searches return A, B and B, A.
\<close>

theorem search_token_order_counterexample:
  "set (extractTokens samplePlatform (js ''ao mau'')) = set (extractTokens samplePlatform (js ''mau ao'')) \<and>
   searchVideos samplePlatform tieDB (js ''ao mau'') \<noteq> searchVideos samplePlatform tieDB (js ''mau ao'')"
proof -
  have t1: "extractTokens samplePlatform (js ''ao mau'') = [js ''ao'', js ''mau'']" by code_simp
  have t3: "extractTokens samplePlatform (js ''mau ao'') = [js ''mau'', js ''ao'']" by code_simp
  have r1: "map vid (searchVideos samplePlatform tieDB (js ''ao mau'')) = [js ''A'', js ''B'']" by code_simp
  have r2: "map vid (searchVideos samplePlatform tieDB (js ''mau ao'')) = [js ''B'', js ''A'']" by code_simp
  have "[js ''A'', js ''B''] \<noteq> [js ''B'', js ''A'']" by (simp add: js_def)
  with r1 r2 have "searchVideos samplePlatform tieDB (js ''ao mau'') \<noteq> searchVideos samplePlatform tieDB (js ''mau ao'')"
    by metis
  then show ?thesis by (simp add: t1 t3 insert_commute)
qed

section \<open>Ingestion of items\<close>

text \<open>
  C2. After \<open>saveVideo\<close> has run for an item, a second call with the same id answers
  "already indexed" and returns the store as it was: nothing is written, so every posting list
  is unchanged. The store then holds exactly one item under that id, and it is the item that
  was there first.
\<close>

theorem saveVideo_twice:
  assumes "distinct (map vid (videos s))" and "vid v' = vid v"
  shows "saveVideo pf (fst (saveVideo pf s v)) v' = (fst (saveVideo pf s v), AlreadyIndexed) \<and>
         length (filter (\<lambda>x. vid x = vid v) (videos (fst (saveVideo pf s v)))) = 1 \<and>
         store_get vid (vid v) (videos (fst (saveVideo pf s v)))
           = (case store_get vid (vid v) (videos s) of None \<Rightarrow> Some v | Some x \<Rightarrow> Some x)"
proof (cases "store_get vid (vid v) (videos s)")
  case None
  let ?s1 = "fst (saveVideo pf s v)"
  have vs: "videos ?s1 = store_put vid v (videos s)"
    using None by (simp add: saveVideo_def Let_def)
  have got: "store_get vid (vid v) (videos ?s1) = Some v"
    by (simp add: vs store_get_put)
  have "distinct (map vid (videos ?s1))"
    using assms(1) by (simp add: vs distinct_store_put)
  moreover have "vid v \<in> vid ` set (videos ?s1)"
    by (simp add: vs set_store_put)
  ultimately have one: "length (filter (\<lambda>x. vid x = vid v) (videos ?s1)) = 1"
    by (rule count_key_distinct)
  have "saveVideo pf ?s1 v' = (?s1, AlreadyIndexed)"
    using got assms(2) by (simp add: saveVideo_def[of pf ?s1 v'])
  with one got None show ?thesis by simp
next
  case (Some x)
  then have same: "fst (saveVideo pf s v) = s" by (simp add: saveVideo_def)
  from Some have "vid v \<in> vid ` set (videos s)"
    by (metis option.distinct(1) store_get_None_iff)
  with assms(1) have "length (filter (\<lambda>x. vid x = vid v) (videos s)) = 1"
    by (rule count_key_distinct)
  with Some same assms(2) show ?thesis by (simp add: saveVideo_def)
qed

theorem saveVideo_twice_witness:
  "distinct (map vid (videos emptyDB)) \<and>
   saveVideo samplePlatform (fst (saveVideo samplePlatform emptyDB (mkVideo ''A'' (js ''ao''))))
       (mkVideo ''A'' (js ''mau''))
     = (fst (saveVideo samplePlatform emptyDB (mkVideo ''A'' (js ''ao''))), AlreadyIndexed) \<and>
   length (filter (\<lambda>x. vid x = js ''A'')
       (videos (fst (saveVideo samplePlatform emptyDB (mkVideo ''A'' (js ''ao'')))))) = 1"
proof -
  have h: "distinct (map vid (videos emptyDB))" by (simp add: emptyDB_def)
  have k: "vid (mkVideo ''A'' (js ''mau'')) = vid (mkVideo ''A'' (js ''ao''))"
    by (simp add: mkVideo_def)
  from saveVideo_twice[OF h k, of samplePlatform] h show ?thesis
    by (simp add: mkVideo_def)
qed

section \<open>Ingestion of frames\<close>

lemma storedFrame_fields:
  "key (storedFrame fd buf) = key fd" "videoId (storedFrame fd buf) = videoId fd"
  "ts (storedFrame fd buf) = ts fd" "blobData (storedFrame fd buf) = buf"
  "analysis (storedFrame fd buf) = None"
  by (simp_all add: storedFrame_def)

lemma analyzeStep_no_blob: "blobData fr = None \<Longrightarrow> analyzeStep pf env s fr = (s, fr)"
  by (simp add: analyzeStep_def split: option.splits)

lemma analyzeStep_failed:
  assumes "blobData fr = Some buf" and "storedSettings env = Some st"
    and "analyzeImageWithCloudVision (cloudVision env buf (cloudVisionApiKey st)) = None"
  shows "analyzeStep pf env s fr = (s, fr)"
  using assms by (simp add: analyzeStep_def)

lemma analyzeStep_disabled:
  assumes "storedSettings env = Some st" and "\<not> enableAI st"
  shows "analyzeStep pf env s fr = (s, fr)"
  using assms by (simp add: analyzeStep_def split: option.splits)

text \<open>
  C8. For a frame whose image payload converts to bytes, when Cloud Vision is enabled and the
  call fails (the request is rejected, the response is not ok, or reading the body throws),
  \<open>saveFrame\<close> does what it does with the analysis switched off; when the put request
  succeeds it answers success, the frame is in the store with its bytes and without an
  analysis, and every other store is unchanged.
\<close>

theorem saveFrame_analysis_failure:
  assumes "convertBlob (blob fd) = Inr (Some buf)"
    and "storedSettings env = Some st"
    and "enableAI st" and "enableCloudVision st" and "cloudVisionApiKey st \<noteq> []"
    and "cloudVision env buf (cloudVisionApiKey st) \<in> {FetchRejected, HttpNotOk, BadBody}"
  shows "saveFrame pf env s fd = saveFrame pf (env\<lparr>storedSettings := Some (st\<lparr>enableAI := False\<rparr>)\<rparr>) s fd \<and>
    (framePutError env = None \<longrightarrow>
       saveFrame pf env s fd = (s\<lparr>frames := store_put key (storedFrame fd (Some buf)) (frames s)\<rparr>, Inr ()) \<and>
       store_get key (key fd) (frames (fst (saveFrame pf env s fd))) = Some (storedFrame fd (Some buf)))"
proof -
  have none: "analyzeImageWithCloudVision (cloudVision env buf (cloudVisionApiKey st)) = None"
    using assms(6) by (auto simp: analyzeImageWithCloudVision_def)
  have step: "analyzeStep pf env s (storedFrame fd (Some buf)) = (s, storedFrame fd (Some buf))"
    by (rule analyzeStep_failed[OF _ assms(2) none]) (simp add: storedFrame_fields)
  have off: "analyzeStep pf (env\<lparr>storedSettings := Some (st\<lparr>enableAI := False\<rparr>)\<rparr>) s (storedFrame fd (Some buf))
               = (s, storedFrame fd (Some buf))"
    by (rule analyzeStep_disabled[of _ "st\<lparr>enableAI := False\<rparr>"]) simp_all
  have eq: "saveFrame pf env s fd = saveFrame pf (env\<lparr>storedSettings := Some (st\<lparr>enableAI := False\<rparr>)\<rparr>) s fd"
    using assms(1) step off by (simp add: saveFrame_def storedFrame_def[symmetric])
  have ok: "saveFrame pf env s fd = (s\<lparr>frames := store_put key (storedFrame fd (Some buf)) (frames s)\<rparr>, Inr ())"
    if "framePutError env = None"
    using assms(1) step that by (simp add: saveFrame_def storedFrame_def[symmetric])
  have "store_get key (key fd) (frames (fst (saveFrame pf env s fd))) = Some (storedFrame fd (Some buf))"
    if "framePutError env = None"
    by (simp add: ok[OF that] store_get_put storedFrame_fields)
  with eq ok show ?thesis by blast
qed

theorem saveFrame_analysis_failure_witness:
  "convertBlob (blob (sampleFrameData (NumberArray [82, 73, 70, 70]))) = Inr (Some [82, 73, 70, 70]) \<and>
   storedSettings unreachableEnv = Some visionOn \<and>
   enableAI visionOn \<and> enableCloudVision visionOn \<and> cloudVisionApiKey visionOn \<noteq> [] \<and>
   cloudVision unreachableEnv [82, 73, 70, 70] (cloudVisionApiKey visionOn) \<in> {FetchRejected, HttpNotOk, BadBody} \<and>
   framePutError unreachableEnv = None \<and>
   saveFrame samplePlatform unreachableEnv emptyDB (sampleFrameData (NumberArray [82, 73, 70, 70]))
     = (emptyDB\<lparr>frames := [storedFrame (sampleFrameData (NumberArray [82, 73, 70, 70])) (Some [82, 73, 70, 70])]\<rparr>, Inr ())"
proof -
  have h1: "convertBlob (blob (sampleFrameData (NumberArray [82, 73, 70, 70]))) = Inr (Some [82, 73, 70, 70])"
    by (simp add: sampleFrameData_def convertBlob_def)
  have h2: "storedSettings unreachableEnv = Some visionOn" by (simp add: unreachableEnv_def)
  have h3: "enableAI visionOn" "enableCloudVision visionOn" "cloudVisionApiKey visionOn \<noteq> []"
    by (simp_all add: visionOn_def js_def)
  have h4: "cloudVision unreachableEnv [82, 73, 70, 70] (cloudVisionApiKey visionOn) \<in> {FetchRejected, HttpNotOk, BadBody}"
    by (simp add: unreachableEnv_def)
  have h5: "framePutError unreachableEnv = None" by (simp add: unreachableEnv_def)
  have "saveFrame samplePlatform unreachableEnv emptyDB (sampleFrameData (NumberArray [82, 73, 70, 70]))
     = (emptyDB\<lparr>frames := store_put key
          (storedFrame (sampleFrameData (NumberArray [82, 73, 70, 70])) (Some [82, 73, 70, 70])) (frames emptyDB)\<rparr>, Inr ())"
    using saveFrame_analysis_failure[OF h1 h2 h3 h4, of samplePlatform emptyDB] h5 by blast
  then have h6: "saveFrame samplePlatform unreachableEnv emptyDB (sampleFrameData (NumberArray [82, 73, 70, 70]))
     = (emptyDB\<lparr>frames := [storedFrame (sampleFrameData (NumberArray [82, 73, 70, 70])) (Some [82, 73, 70, 70])]\<rparr>, Inr ())"
    by (simp add: emptyDB_def store_put_def store_delete_def)
  from h1 h2 h3 h4 h5 h6 show ?thesis by blast
qed

text \<open>
  C10. When the \<open>blob\<close> field is \<open>undefined\<close> or \<open>null\<close> and the put request succeeds,
  \<open>saveFrame\<close> answers success and stores the frame with \<open>blobData = null\<close>, touching
  nothing else. The answer "Invalid blob type" is given only for a value that is present and
  of none of the four shapes.
\<close>

theorem saveFrame_absent_blob:
  "(blob fd = Undefined \<or> blob fd = Null \<longrightarrow> framePutError env = None \<longrightarrow>
      saveFrame pf env s fd = (s\<lparr>frames := store_put key (storedFrame fd None) (frames s)\<rparr>, Inr ()) \<and>
      store_get key (key fd) (frames (fst (saveFrame pf env s fd))) = Some (storedFrame fd None)) \<and>
   (snd (saveFrame pf env s fd) = Inl InvalidBlobType \<longrightarrow> blob fd = Unrecognized)"
proof -
  have absent: "saveFrame pf env s fd = (s\<lparr>frames := store_put key (storedFrame fd None) (frames s)\<rparr>, Inr ())"
    if "blob fd = Undefined \<or> blob fd = Null" and "framePutError env = None"
    using that
    by (auto simp: saveFrame_def convertBlob_def storedFrame_def[symmetric] analyzeStep_no_blob
          storedFrame_fields)
  have stored: "store_get key (key fd) (frames (fst (saveFrame pf env s fd))) = Some (storedFrame fd None)"
    if "blob fd = Undefined \<or> blob fd = Null" and "framePutError env = None"
    by (simp add: absent[OF that] store_get_put storedFrame_fields)
  have invalid: "blob fd = Unrecognized" if "snd (saveFrame pf env s fd) = Inl InvalidBlobType"
    using that
    by (cases "blob fd")
       (auto simp: saveFrame_def convertBlob_def Let_def split: sum.splits option.splits prod.splits)
  from absent stored invalid show ?thesis by blast
qed

theorem saveFrame_absent_blob_witness:
  "(blob (sampleFrameData Undefined) = Undefined \<or> blob (sampleFrameData Undefined) = Null) \<and>
   framePutError unreachableEnv = None \<and>
   saveFrame samplePlatform unreachableEnv emptyDB (sampleFrameData Undefined)
     = (emptyDB\<lparr>frames := [storedFrame (sampleFrameData Undefined) None]\<rparr>, Inr ()) \<and>
   snd (saveFrame samplePlatform unreachableEnv emptyDB (sampleFrameData Unrecognized)) = Inl InvalidBlobType \<and>
   blob (sampleFrameData Unrecognized) = Unrecognized"
proof -
  have h1: "blob (sampleFrameData Undefined) = Undefined \<or> blob (sampleFrameData Undefined) = Null"
    by (simp add: sampleFrameData_def)
  have h2: "framePutError unreachableEnv = None" by (simp add: unreachableEnv_def)
  have h3: "snd (saveFrame samplePlatform unreachableEnv emptyDB (sampleFrameData Unrecognized)) = Inl InvalidBlobType"
    by (simp add: saveFrame_def sampleFrameData_def convertBlob_def)
  have h4: "blob (sampleFrameData Unrecognized) = Unrecognized"
    using saveFrame_absent_blob[of "sampleFrameData Unrecognized" unreachableEnv samplePlatform emptyDB] h3
    by blast
  have "saveFrame samplePlatform unreachableEnv emptyDB (sampleFrameData Undefined)
     = (emptyDB\<lparr>frames := store_put key (storedFrame (sampleFrameData Undefined) None) (frames emptyDB)\<rparr>, Inr ())"
    using saveFrame_absent_blob[of "sampleFrameData Undefined" unreachableEnv samplePlatform emptyDB] h1 h2
    by blast
  then have h5: "saveFrame samplePlatform unreachableEnv emptyDB (sampleFrameData Undefined)
     = (emptyDB\<lparr>frames := [storedFrame (sampleFrameData Undefined) None]\<rparr>, Inr ())"
    by (simp add: emptyDB_def store_put_def store_delete_def)
  from h1 h2 h3 h4 h5 show ?thesis by blast
qed

section \<open>Retention\<close>

lemma deleteAll_filter: "deleteAll st victims = filter (\<lambda>x. key x \<notin> key ` set victims) st"
  unfolding deleteAll_def
proof (induction victims arbitrary: st)
  case Nil then show ?case by simp
next
  case (Cons v victims)
  have "foldl (\<lambda>st' item. store_delete key (key item) st') (store_delete key (key v) st) victims
          = filter (\<lambda>x. key x \<notin> key ` set victims) (store_delete key (key v) st)"
    by (rule Cons.IH)
  then show ?case
    by (simp add: store_delete_def conj_commute)
qed

lemma set_deleteAll: "set (deleteAll st victims) = {x \<in> set st. key x \<notin> key ` set victims}"
  by (simp add: deleteAll_filter)

lemma distinct_deleteAll: "distinct (map key st) \<Longrightarrow> distinct (map key (deleteAll st victims))"
  by (simp add: deleteAll_filter distinct_map_filter)

lemma deleteUpTo_filter:
  assumes "distinct (map key st)"
  shows "deleteUpTo bound st = filter (\<lambda>x. bound < ts x) st"
proof -
  have "key x \<notin> key ` {y \<in> set st. ts y \<le> bound} \<longleftrightarrow> bound < ts x" if "x \<in> set st" for x
  proof
    assume "key x \<notin> key ` {y \<in> set st. ts y \<le> bound}"
    with that show "bound < ts x" by force
  next
    assume lt: "bound < ts x"
    show "key x \<notin> key ` {y \<in> set st. ts y \<le> bound}"
    proof
      assume "key x \<in> key ` {y \<in> set st. ts y \<le> bound}"
      then obtain y where y: "y \<in> set st" "ts y \<le> bound" "key y = key x" by auto
      with assms that have "y = x" by (meson distinct_map inj_onD)
      with y lt show False by simp
    qed
  qed
  then show ?thesis
    by (auto simp: deleteUpTo_def deleteAll_filter intro!: filter_cong)
qed

text \<open>
  C3. The code removes a frame captured exactly at the horizon \<open>now - 30 days\<close>: the key
  range \<open>IDBKeyRange.upperBound(thirtyDaysAgo)\<close> is closed. In general, in a store with one
  record per key, the records that remain are those with \<open>bound < ts\<close>.
\<close>

theorem cleanupOldFrames_at_horizon:
  "ts (horizonFrame now) = now - thirtyDays \<and>
   frames (cleanupOldFrames now (emptyDB\<lparr>frames := [horizonFrame now]\<rparr>)) = []"
  by (simp add: cleanupOldFrames_def deleteUpTo_def deleteAll_def store_delete_def horizonFrame_def emptyDB_def)

text \<open>
  C9. Neither \<open>cleanupOldFrames\<close> nor \<open>checkDBSize\<close>, nor the two in a row, changes the items
  or the inverted index, in any store.
\<close>

theorem retention_keeps_items_and_postings:
  "videos (cleanupOldFrames now s) = videos s \<and>
   invertedIndex (cleanupOldFrames now s) = invertedIndex s \<and>
   videos (checkDBSize now s) = videos s \<and>
   invertedIndex (checkDBSize now s) = invertedIndex s \<and>
   videos (retentionCycle now1 now2 s) = videos s \<and>
   invertedIndex (retentionCycle now1 now2 s) = invertedIndex s"
  by (simp add: cleanupOldFrames_def checkDBSize_def retentionCycle_def Let_def)

section \<open>The cap on thumbnails\<close>

lemma thumbnails_saveThumbnail_below:
  assumes "length (thumbsOf (videoId t) s) < MAX_THUMBS_PER_VIDEO"
  shows "thumbnails (saveThumbnail s t) = store_put key t (thumbnails s)"
  using assms by (simp add: saveThumbnail_def thumbsOf_def Let_def)

lemma thumbnails_saveThumbnail_full:
  assumes "length (thumbsOf (videoId t) s) = MAX_THUMBS_PER_VIDEO"
  shows "thumbnails (saveThumbnail s t)
           = store_put key t (deleteAll (thumbnails s) (take 1 (sort_key ts (thumbsOf (videoId t) s))))"
  using assms by (simp add: saveThumbnail_def thumbsOf_def Let_def)

lemma distinct_keys_saveThumbnail:
  "distinct (map key (thumbnails s)) \<Longrightarrow> distinct (map key (thumbnails (saveThumbnail s t)))"
  by (simp add: saveThumbnail_def Let_def distinct_store_put distinct_deleteAll)

lemma saved_thumbnail_present: "t \<in> set (thumbsOf (videoId t) (saveThumbnail s t))"
  by (simp add: saveThumbnail_def thumbsOf_def Let_def set_store_put)

lemma thumbsOf_saveThumbnails_below:
  assumes "distinct (map key (thumbnails s))" and "thumbsOf v s = []"
  shows "length xs \<le> MAX_THUMBS_PER_VIDEO \<Longrightarrow> distinct (map key xs) \<Longrightarrow>
         (\<forall>t \<in> set xs. videoId t = v) \<Longrightarrow>
         set (thumbsOf v (saveThumbnails s xs)) = set xs \<and>
         distinct (map key (thumbnails (saveThumbnails s xs)))"
proof (induction xs rule: rev_induct)
  case Nil
  with assms show ?case by (simp add: saveThumbnails_def)
next
  case (snoc t xs)
  let ?s = "saveThumbnails s xs"
  from snoc have IH: "set (thumbsOf v ?s) = set xs" "distinct (map key (thumbnails ?s))"
    by simp_all
  have vt: "videoId t = v" using snoc.prems by simp
  have "distinct (thumbsOf v ?s)"
    using IH(2) by (simp add: thumbsOf_def distinct_map_filter distinct_of_distinct_map)
  then have "length (thumbsOf v ?s) = card (set xs)"
    using IH(1) by (metis distinct_card)
  also have "\<dots> = length xs"
  proof -
    have "distinct xs" using snoc.prems(2) by (simp add: distinct_map)
    then show ?thesis by (rule distinct_card)
  qed
  finally have "length (thumbsOf (videoId t) ?s) < MAX_THUMBS_PER_VIDEO"
    using snoc.prems(1) vt by simp
  then have put: "thumbnails (saveThumbnail ?s t) = store_put key t (thumbnails ?s)"
    by (rule thumbnails_saveThumbnail_below)
  have new: "\<forall>x \<in> set xs. key x \<noteq> key t"
    using snoc.prems(2) by (auto simp: image_iff)
  have "set (thumbsOf v (saveThumbnail ?s t)) = insert t {y \<in> set (thumbsOf v ?s). key y \<noteq> key t}"
    using vt by (auto simp: thumbsOf_def put set_store_put)
  also have "\<dots> = insert t (set xs)"
    using new by (auto simp: IH(1))
  finally have "set (thumbsOf v (saveThumbnail ?s t)) = set (xs @ [t])" by simp
  moreover have "distinct (map key (thumbnails (saveThumbnail ?s t)))"
    using IH(2) by (rule distinct_keys_saveThumbnail)
  ultimately show ?case by (simp add: saveThumbnails_def)
qed

lemma take1_sort_key_min:
  assumes "take 1 (sort_key f xs) = [x]"
  shows "x \<in> set xs \<and> (\<forall>y \<in> set xs. f x \<le> f y)"
proof -
  from assms obtain rest where eq: "sort_key f xs = x # rest"
    by (cases "sort_key f xs") auto
  have "sorted (map f (sort_key f xs))" by simp
  with eq have "\<forall>y \<in> set (x # rest). f x \<le> f y" by auto
  moreover have "set (x # rest) = set xs" using eq by (metis set_sort)
  ultimately show ?thesis by auto
qed

lemma take_sort_key_all_but_last:
  assumes "length ys = Suc n" and "distinct ys"
  shows "\<exists>z \<in> set ys. set (take n (sort_key f ys)) = set ys - {z} \<and> (\<forall>y \<in> set ys. f y \<le> f z)"
proof -
  let ?zs = "sort_key f ys"
  have len: "length ?zs = Suc n" using assms(1) by simp
  have ne: "?zs \<noteq> []" using len by (metis length_0_conv nat.distinct(1))
  have d: "distinct ?zs" using assms(2) by simp
  have "take n ?zs = butlast ?zs" using len by (simp add: butlast_conv_take)
  moreover have "set (butlast ?zs) = set ?zs - {last ?zs}"
  proof -
    have split: "butlast ?zs @ [last ?zs] = ?zs" using ne by simp
    then have "distinct (butlast ?zs @ [last ?zs])" using d by simp
    then have "last ?zs \<notin> set (butlast ?zs)" by simp
    moreover have "set ?zs = set (butlast ?zs) \<union> {last ?zs}"
      using split by (metis set_append list.set(1) list.set(2))
    ultimately show ?thesis by auto
  qed
  moreover have "\<forall>y \<in> set ?zs. f y \<le> f (last ?zs)"
  proof
    fix y assume y: "y \<in> set ?zs"
    have split: "butlast ?zs @ [last ?zs] = ?zs" using ne by simp
    have "sorted (map f (butlast ?zs @ [last ?zs]))" unfolding split by simp
    then have "\<forall>x \<in> set (butlast ?zs). f x \<le> f (last ?zs)"
      by (simp add: sorted_append)
    moreover from y have "y \<in> set (butlast ?zs) \<or> y = last ?zs"
      by (metis split Un_iff empty_iff insert_iff list.set(1) list.set(2) set_append)
    ultimately show "f y \<le> f (last ?zs)" by auto
  qed
  moreover have "last ?zs \<in> set ys" using ne by (metis last_in_set set_sort)
  ultimately show ?thesis by (metis set_sort)
qed

lemma capThumb_fields:
  "key (capThumb n) = js ''v1:thumb:'' @ replicate n 0x31" "videoId (capThumb n) = js ''v1''"
  "ts (capThumb n) = int n"
  by (simp_all add: capThumb_def)

lemma inj_capThumb_key: "inj (\<lambda>n. key (capThumb n))"
proof (rule injI)
  fix m n assume "key (capThumb m) = key (capThumb n)"
  then have "length (replicate m (0x31::code_unit)) = length (replicate n (0x31::code_unit))"
    by (simp add: capThumb_fields)
  then show "m = n" by simp
qed

lemma inj_capThumb_ts: "inj (\<lambda>n. ts (capThumb n))"
  by (rule injI) (simp add: capThumb_fields)

lemma distinct_capThumbs:
  assumes "distinct ns"
  shows "distinct (map key (map capThumb ns))" and "distinct (map ts (map capThumb ns))"
  using assms inj_capThumb_key inj_capThumb_ts
  by (simp_all add: distinct_map comp_def inj_on_def inj_def)

text \<open>
  C6 (amended). Starting from a store with one record per key and no thumbnail of the item,
  after 501 calls of \<open>saveThumbnail\<close> for the item with distinct keys, exactly 500 thumbnails
  of the item remain, in whatever order they arrive, and the last one written is among them.
  When the timestamps are distinct, the ones that remain are the last one written and the 499
  most recent of the 500 written before it; they are the 500 most recent of all 501 exactly
  when the last one written is newer than at least one of the 500 before it.
\<close>

theorem thumbnail_cap:
  assumes wf: "distinct (map key (thumbnails s))" and empty: "thumbsOf v s = []"
    and len: "length thumbs = 501"
    and vids: "\<forall>t \<in> set thumbs. videoId t = v"
    and dk: "distinct (map key thumbs)"
  shows "length (thumbsOf v (saveThumbnails s thumbs)) = 500 \<and>
         last thumbs \<in> set (thumbsOf v (saveThumbnails s thumbs)) \<and>
         (distinct (map ts thumbs) \<longrightarrow>
            set (thumbsOf v (saveThumbnails s thumbs))
              = insert (last thumbs) (set (mostRecent 499 (butlast thumbs))) \<and>
            (set (thumbsOf v (saveThumbnails s thumbs)) = set (mostRecent 500 thumbs)
               \<longleftrightarrow> (\<exists>u \<in> set (butlast thumbs). ts u < ts (last thumbs))))"
proof -
  define xs where "xs = butlast thumbs"
  define t where "t = last thumbs"
  have ne: "thumbs \<noteq> []" using len by auto
  then have split: "thumbs = xs @ [t]" by (simp add: xs_def t_def)
  have lxs: "length xs = 500" using len by (simp add: xs_def)
  have vt: "videoId t = v" and vxs: "\<forall>x \<in> set xs. videoId x = v"
    using vids by (simp_all add: split)
  have dkx: "distinct (map key xs)" and knew: "\<forall>x \<in> set xs. key x \<noteq> key t"
    using dk by (auto simp: split image_iff)
  have dxs: "distinct xs" using dkx by (simp add: distinct_map)
  have dthumbs: "distinct thumbs" using dk by (simp add: distinct_map)
  then have t_new: "t \<notin> set xs" by (simp add: split)
  let ?s = "saveThumbnails s xs"
  let ?final = "thumbsOf v (saveThumbnails s thumbs)"
  have below: "set (thumbsOf v ?s) = set xs \<and> distinct (map key (thumbnails ?s))"
    by (rule thumbsOf_saveThumbnails_below[OF wf empty _ dkx vxs])
       (simp add: lxs MAX_THUMBS_PER_VIDEO_def)
  then have ex_set: "set (thumbsOf v ?s) = set xs" and dks: "distinct (map key (thumbnails ?s))"
    by simp_all
  have dex: "distinct (thumbsOf v ?s)"
    using dks by (simp add: thumbsOf_def distinct_map_filter distinct_of_distinct_map)
  have "length (thumbsOf v ?s) = card (set xs)"
    using dex ex_set by (metis distinct_card)
  then have lex: "length (thumbsOf v ?s) = 500"
    using dxs lxs by (simp add: distinct_card)
  have final: "saveThumbnails s thumbs = saveThumbnail ?s t"
    by (simp add: saveThumbnails_def split)
  have "sort_key ts (thumbsOf v ?s) \<noteq> []"
    using lex by (metis length_sort list.size(3) zero_neq_numeral)
  then obtain m where m: "take 1 (sort_key ts (thumbsOf v ?s)) = [m]"
    by (cases "sort_key ts (thumbsOf v ?s)") auto
  from take1_sort_key_min[OF m] ex_set
  have m_in: "m \<in> set xs" and m_min: "\<forall>y \<in> set xs. ts m \<le> ts y" by auto
  have store: "thumbnails (saveThumbnail ?s t) = store_put key t (deleteAll (thumbnails ?s) [m])"
    using thumbnails_saveThumbnail_full[of t ?s] lex vt m
    by (simp add: MAX_THUMBS_PER_VIDEO_def)
  have keym: "\<forall>y \<in> set xs. key y = key m \<longrightarrow> y = m"
    using dkx m_in by (meson distinct_map inj_onD)
  have "set (thumbsOf v (saveThumbnail ?s t))
          = insert t {y \<in> set (thumbsOf v ?s). key y \<noteq> key m \<and> key y \<noteq> key t}"
    using vt by (auto simp: thumbsOf_def store set_store_put set_deleteAll)
  also have "\<dots> = insert t (set xs - {m})"
    using knew keym by (auto simp: ex_set)
  finally have remaining: "set ?final = insert t (set xs - {m})"
    by (simp add: final)
  have tm: "t \<noteq> m" using t_new m_in by auto
  have "distinct (map key (thumbnails (saveThumbnail ?s t)))"
    using dks by (rule distinct_keys_saveThumbnail)
  then have "distinct ?final"
    by (simp add: final thumbsOf_def distinct_map_filter distinct_of_distinct_map)
  then have "length ?final = card (insert t (set xs - {m}))"
    using remaining by (metis distinct_card)
  also have "\<dots> = 500"
  proof -
    have "card (insert t (set xs - {m})) = Suc (card (set xs - {m}))" using t_new by simp
    also have "card (set xs - {m}) = card (set xs) - 1" using m_in by simp
    also have "card (set xs) = 500" using dxs lxs by (simp add: distinct_card)
    finally show ?thesis by simp
  qed
  finally have count: "length ?final = 500" .
  have stays: "last thumbs \<in> set ?final"
    using remaining by (simp add: t_def)
  have recent: "set ?final = insert (last thumbs) (set (mostRecent 499 (butlast thumbs))) \<and>
      (set ?final = set (mostRecent 500 thumbs) \<longleftrightarrow> (\<exists>u \<in> set (butlast thumbs). ts u < ts (last thumbs)))"
    if dts: "distinct (map ts thumbs)"
  proof -
    have inj_ts: "inj_on ts (set thumbs)" using dts by (simp add: distinct_map)
    obtain z' where z': "z' \<in> set xs" "set (take 499 (sort_key (\<lambda>t. - ts t) xs)) = set xs - {z'}"
        "\<forall>y \<in> set xs. - ts y \<le> - ts z'"
      using take_sort_key_all_but_last[of xs 499 "\<lambda>t. - ts t"] lxs dxs by auto
    have "ts z' \<le> ts m" using z'(3) m_in by simp
    moreover have "ts m \<le> ts z'" using m_min z'(1) by simp
    ultimately have "ts z' = ts m" by simp
    with inj_ts z'(1) m_in have "z' = m" by (auto simp: split dest: inj_onD)
    with z'(2) have part1: "set ?final = insert (last thumbs) (set (mostRecent 499 (butlast thumbs)))"
      using remaining by (simp add: mostRecent_def xs_def[symmetric] t_def[symmetric])
    obtain z where z: "z \<in> set thumbs" "set (take 500 (sort_key (\<lambda>t. - ts t) thumbs)) = set thumbs - {z}"
        "\<forall>y \<in> set thumbs. - ts y \<le> - ts z"
      using take_sort_key_all_but_last[of thumbs 500 "\<lambda>t. - ts t"] len dthumbs by auto
    have zmin: "ts z \<le> ts m" "ts z \<le> ts t" using z(3) m_in by (simp_all add: split)
    have part2: "set ?final = set (mostRecent 500 thumbs)" if "\<exists>u \<in> set xs. ts u < ts t"
    proof -
      from that obtain u where u: "u \<in> set xs" "ts u < ts t" by blast
      with m_min have m_lt: "ts m < ts t" by force
      with zmin(1) have "z \<noteq> t" by auto
      with z(1) have z_in: "z \<in> set xs" by (simp add: split)
      with m_min zmin(1) have "ts z = ts m" by force
      with inj_ts z(1) m_in have "z = m" by (auto simp: split dest: inj_onD)
      with z(2) have "set (mostRecent 500 thumbs) = insert t (set xs - {m})"
        using tm by (auto simp: mostRecent_def split)
      with remaining show ?thesis by simp
    qed
    have part3: "\<exists>u \<in> set xs. ts u < ts t" if eq: "set ?final = set (mostRecent 500 thumbs)"
    proof -
      have "t \<in> set ?final" using remaining by simp
      with eq z(2) have "z \<noteq> t" by (auto simp: mostRecent_def)
      with z(1) have z_in: "z \<in> set xs" by (simp add: split)
      have "t \<in> set thumbs" by (simp add: split)
      with inj_ts z(1) \<open>z \<noteq> t\<close> have "ts z \<noteq> ts t"
        by (meson inj_onD)
      with zmin(2) have "ts z < ts t" by simp
      with z_in show ?thesis by blast
    qed
    from part1 part2 part3 show ?thesis
      by (auto simp: xs_def[symmetric] t_def[symmetric])
  qed
  from count stays recent show ?thesis by blast
qed

theorem thumbnail_cap_witness:
  "distinct (map key (thumbnails emptyDB)) \<and> thumbsOf (js ''v1'') emptyDB = [] \<and>
   length orderedThumbs = 501 \<and> list_all (\<lambda>t. videoId t = js ''v1'') orderedThumbs \<and>
   distinct (map key orderedThumbs) \<and> distinct (map ts orderedThumbs) \<and>
   ts (capThumb 0) < ts (last orderedThumbs) \<and> capThumb 0 \<in> set (butlast orderedThumbs) \<and>
   length (thumbsOf (js ''v1'') (saveThumbnails emptyDB orderedThumbs)) = 500 \<and>
   set (thumbsOf (js ''v1'') (saveThumbnails emptyDB orderedThumbs)) = set (mostRecent 500 orderedThumbs) \<and>
   length (thumbsOf (js ''v1'') (saveThumbnails emptyDB lateThumbs)) = 500"
proof -
  have wf: "distinct (map key (thumbnails emptyDB))" and empty: "thumbsOf (js ''v1'') emptyDB = []"
    by (simp_all add: emptyDB_def thumbsOf_def)
  have len: "length orderedThumbs = 501" by (simp add: orderedThumbs_def)
  have vids: "\<forall>t \<in> set orderedThumbs. videoId t = js ''v1''"
    by (auto simp: orderedThumbs_def capThumb_fields)
  have dk: "distinct (map key orderedThumbs)" and dts: "distinct (map ts orderedThumbs)"
    unfolding orderedThumbs_def by (rule distinct_capThumbs, simp)+
  have bl: "butlast orderedThumbs = map capThumb [0..<500]" and la: "last orderedThumbs = capThumb 500"
  proof -
    have "[0..<501] = [0..<500] @ [500]"
      using upt_Suc_append[of 0 500] by simp
    then have ot: "orderedThumbs = map capThumb [0..<500] @ [capThumb 500]"
      by (simp add: orderedThumbs_def)
    show "butlast orderedThumbs = map capThumb [0..<500]"
      unfolding ot by (rule butlast_snoc)
    show "last orderedThumbs = capThumb 500"
      unfolding ot by (rule last_snoc)
  qed
  have u1: "capThumb 0 \<in> set (butlast orderedThumbs)" by (simp add: bl)
  have u2: "ts (capThumb 0) < ts (last orderedThumbs)" by (simp add: la capThumb_fields)
  from u1 u2 have late: "\<exists>u \<in> set (butlast orderedThumbs). ts u < ts (last orderedThumbs)" by blast
  have leq: "lateThumbs = map capThumb ([1..<501] @ [0])" by (simp add: lateThumbs_def)
  have llen: "length lateThumbs = 501" by (simp add: lateThumbs_def)
  have lvids: "\<forall>t \<in> set lateThumbs. videoId t = js ''v1''"
    by (auto simp: lateThumbs_def capThumb_fields)
  have ldk: "distinct (map key lateThumbs)"
    unfolding leq by (rule distinct_capThumbs, simp)
  from thumbnail_cap[OF wf empty len vids dk] dts late
  have a: "length (thumbsOf (js ''v1'') (saveThumbnails emptyDB orderedThumbs)) = 500"
    and b: "set (thumbsOf (js ''v1'') (saveThumbnails emptyDB orderedThumbs)) = set (mostRecent 500 orderedThumbs)"
    by blast+
  from thumbnail_cap[OF wf empty llen lvids ldk]
  have c: "length (thumbsOf (js ''v1'') (saveThumbnails emptyDB lateThumbs)) = 500"
    by blast
  from wf empty len vids dk dts u1 u2 a b c show ?thesis
    by (simp add: list_all_iff)
qed

text \<open>
  C6 as stated fails when the last thumbnail written is the oldest: \<open>saveThumbnail\<close> removes
  the oldest of the 500 stored ones and then writes the new one, so the oldest of the 501
  stays and a newer one is gone.
\<close>

theorem thumbnail_cap_counterexample:
  "distinct (map key (thumbnails emptyDB)) \<and> thumbsOf (js ''v1'') emptyDB = [] \<and>
   length lateThumbs = 501 \<and> list_all (\<lambda>t. videoId t = js ''v1'') lateThumbs \<and>
   distinct (map key lateThumbs) \<and> distinct (map ts lateThumbs) \<and>
   set (thumbsOf (js ''v1'') (saveThumbnails emptyDB lateThumbs)) \<noteq> set (mostRecent 500 lateThumbs)"
proof -
  have wf: "distinct (map key (thumbnails emptyDB))" and empty: "thumbsOf (js ''v1'') emptyDB = []"
    by (simp_all add: emptyDB_def thumbsOf_def)
  have eq: "lateThumbs = map capThumb ([1..<501] @ [0])" by (simp add: lateThumbs_def)
  have len: "length lateThumbs = 501" by (simp add: lateThumbs_def)
  have vids: "list_all (\<lambda>t. videoId t = js ''v1'') lateThumbs"
    by (auto simp: lateThumbs_def capThumb_fields list_all_iff)
  have dk: "distinct (map key lateThumbs)" and dts: "distinct (map ts lateThumbs)"
    unfolding eq by (rule distinct_capThumbs, simp)+
  have dl: "distinct lateThumbs" using dk by (simp add: distinct_map)
  have "capThumb 0 \<in> set (thumbsOf (videoId (capThumb 0))
          (saveThumbnail (saveThumbnails emptyDB (map capThumb [1..<501])) (capThumb 0)))"
    by (rule saved_thumbnail_present)
  then have stays: "capThumb 0 \<in> set (thumbsOf (js ''v1'') (saveThumbnails emptyDB lateThumbs))"
    by (simp add: saveThumbnails_def lateThumbs_def capThumb_fields)
  obtain z where z: "z \<in> set lateThumbs"
      "set (take 500 (sort_key (\<lambda>t. - ts t) lateThumbs)) = set lateThumbs - {z}"
      "\<forall>y \<in> set lateThumbs. - ts y \<le> - ts z"
    using take_sort_key_all_but_last[of lateThumbs 500 "\<lambda>t. - ts t"] len dl by auto
  have "capThumb 0 \<in> set lateThumbs" by (simp add: lateThumbs_def)
  with z(3) have "ts z \<le> 0" by (force simp: capThumb_fields)
  moreover from z(1) obtain n where "z = capThumb n" by (auto simp: lateThumbs_def)
  ultimately have "z = capThumb 0" by (simp add: capThumb_fields)
  with z(2) have "capThumb 0 \<notin> set (mostRecent 500 lateThumbs)"
    by (simp add: mostRecent_def)
  with stays have "set (thumbsOf (js ''v1'') (saveThumbnails emptyDB lateThumbs)) \<noteq> set (mostRecent 500 lateThumbs)"
    by blast
  with wf empty len vids dk dts show ?thesis by blast
qed

section \<open>Reachable stores are well formed\<close>

lemma distinct_keys_indexToken:
  "distinct (map token idx) \<Longrightarrow> distinct (map token (indexToken v idx tok))"
  by (simp add: indexToken_def distinct_store_put split: option.splits)

lemma distinct_keys_updateInvertedIndex:
  "distinct (map token idx) \<Longrightarrow> distinct (map token (updateInvertedIndex v toks idx))"
  unfolding updateInvertedIndex_def
  by (induction toks arbitrary: idx) (simp_all add: distinct_keys_indexToken)

lemma distinct_keys_deleteUpTo: "distinct (map key st) \<Longrightarrow> distinct (map key (deleteUpTo bound st))"
  by (simp add: deleteUpTo_def distinct_deleteAll)

lemma wellFormed_emptyDB: "wellFormed emptyDB"
  by (simp add: wellFormed_def emptyDB_def postingsDistinct_def)

lemma wellFormed_saveVideo:
  assumes "wellFormed s"
  shows "wellFormed (fst (saveVideo pf s v))"
proof -
  have "postingsDistinct (fst (saveVideo pf s v))"
    using assms by (simp add: wellFormed_def postingsDistinct_saveVideo)
  then show ?thesis
    using assms
    by (auto simp: wellFormed_def saveVideo_def Let_def distinct_store_put
        distinct_keys_updateInvertedIndex split: option.splits)
qed

lemma analyzeStep_stores:
  "videos (fst (analyzeStep pf env s fr)) = videos s"
  "frames (fst (analyzeStep pf env s fr)) = frames s"
  "thumbnails (fst (analyzeStep pf env s fr)) = thumbnails s"
  "distinct (map token (invertedIndex s)) \<Longrightarrow>
     distinct (map token (invertedIndex (fst (analyzeStep pf env s fr))))"
  by (simp_all add: analyzeStep_def distinct_keys_updateInvertedIndex split: option.splits)

lemma wellFormed_saveFrame:
  assumes "wellFormed s"
  shows "wellFormed (fst (saveFrame pf env s fd))"
proof (cases "convertBlob (blob fd)")
  case (Inl e)
  with assms show ?thesis by (simp add: saveFrame_def)
next
  case (Inr bd)
  obtain s1 f1 where st: "analyzeStep pf env s (storedFrame fd bd) = (s1, f1)"
    by force
  have pd: "postingsDistinct (fst (saveFrame pf env s fd))"
    using assms by (simp add: wellFormed_def postingsDistinct_saveFrame)
  from analyzeStep_stores[where pf=pf and env=env and s=s and fr="storedFrame fd bd"] st assms
  have "distinct (map vid (videos s1))" "distinct (map key (frames s1))"
       "distinct (map key (thumbnails s1))" "distinct (map token (invertedIndex s1))"
    by (simp_all add: wellFormed_def)
  with Inr st pd show ?thesis
    by (auto simp: wellFormed_def saveFrame_def storedFrame_def[symmetric] distinct_store_put
        postingsDistinct_def split: option.splits)
qed

lemma wellFormed_saveThumbnail: "wellFormed s \<Longrightarrow> wellFormed (saveThumbnail s t)"
  using distinct_keys_saveThumbnail[of s t]
  by (simp add: wellFormed_def postingsDistinct_def) (simp add: saveThumbnail_def Let_def)

lemma wellFormed_cleanupOldFrames: "wellFormed s \<Longrightarrow> wellFormed (cleanupOldFrames now s)"
  by (simp add: wellFormed_def postingsDistinct_def cleanupOldFrames_def Let_def distinct_keys_deleteUpTo)

lemma wellFormed_checkDBSize: "wellFormed s \<Longrightarrow> wellFormed (checkDBSize now s)"
  by (simp add: checkDBSize_def Let_def wellFormed_cleanupOldFrames)

lemma reachable_wellFormed: "reachable s \<Longrightarrow> wellFormed s"
  by (induction rule: reachable.induct)
     (simp_all add: wellFormed_emptyDB wellFormed_saveVideo wellFormed_saveFrame
        wellFormed_saveThumbnail wellFormed_cleanupOldFrames wellFormed_checkDBSize)

section \<open>Median cut\<close>

lemma splitBox_red: "splitBox [redPixel, redPixel] = [[redPixel, redPixel]]"
  by (simp add: splitBox_def channelRange_def redPixel_def Let_def)

lemma splitLoop_red_never_returns:
  assumes "splitLoop numColors n boxes = Some y"
  shows "\<not> (1 < numColors \<and> 1 < n \<and> boxes = [[redPixel, redPixel]])"
  using assms
proof (induction numColors n boxes y rule: splitLoop.raw_induct[rotated 1, consumes 1, case_names step])
  case (step loop numColors n boxes y)
  show ?case
  proof
    assume c: "1 < numColors \<and> 1 < n \<and> boxes = [[redPixel, redPixel]]"
    with step(2) have "loop numColors n [[redPixel, redPixel]] = Some y"
      by (simp add: splitBox_red)
    with step(1) c show False by blast
  qed
qed

text \<open>
  C4. On two pixels of pure red and two requested colours the loop of \<open>medianCut\<close> never
  exits: the only box is monochrome, so every round leaves the boxes as they are, and the
  loop condition stays true.
\<close>

theorem medianCut_monochrome_diverges: "medianCut [redPixel, redPixel] 2 = None"
proof -
  have "splitLoop 2 (length [redPixel, redPixel]) [[redPixel, redPixel]] = None"
  proof (cases "splitLoop 2 (length [redPixel, redPixel]) [[redPixel, redPixel]]")
    case None then show ?thesis .
  next
    case (Some y)
    from splitLoop_red_never_returns[OF Some] show ?thesis by simp
  qed
  then show ?thesis
    unfolding medianCut_def by simp
qed

lemma insort_key_first:
  assumes "f x < f y"
  shows "insort_key f x (replicate i x @ replicate j y) = replicate (Suc i) x @ replicate j y"
  using assms by (cases i; cases j) (simp_all add: less_imp_le)

lemma insort_key_second:
  assumes "f x < f y"
  shows "insort_key f y (replicate i x @ replicate j y) = replicate i x @ replicate (Suc j) y"
proof -
  from assms have nle: "\<not> f y \<le> f x" by (simp add: not_le)
  have base: "insort_key f y (replicate j y) = y # replicate j y"
    by (cases j) simp_all
  show ?thesis
    by (induction i) (simp_all add: base nle)
qed

lemma sort_key_two:
  assumes "f x < f y" and "set xs \<subseteq> {x, y}"
  shows "sort_key f xs = replicate (count_list xs x) x @ replicate (count_list xs y) y"
  using assms(2)
proof (induction xs)
  case Nil then show ?case by simp
next
  case (Cons z zs)
  from assms(1) have ne: "x \<noteq> y" by auto
  from Cons have IH: "sort_key f zs = replicate (count_list zs x) x @ replicate (count_list zs y) y"
    by simp
  from Cons.prems have "z = x \<or> z = y" by simp
  then show ?case
  proof
    assume "z = x"
    then show ?thesis using ne by (simp add: IH insort_key_first[of f x y, OF assms(1)])
  next
    assume "z = y"
    then show ?thesis using ne by (simp add: IH insort_key_second[of f x y, OF assms(1)])
  qed
qed

lemma length_two_counts:
  assumes "x \<noteq> y" and "set xs \<subseteq> {x, y}"
  shows "length xs = count_list xs x + count_list xs y"
  using assms(2) by (induction xs) (use assms(1) in auto)

lemma foldl_min_Min: "foldl (\<lambda>m p. min m (ch p)) c xs = Min (insert c (ch ` set xs))"
proof -
  have "(\<lambda>p m. min m (ch p)) = (\<lambda>p. min (ch p))"
    by (simp add: fun_eq_iff min.commute)
  then have "foldl (\<lambda>m p. min m (ch p)) c xs = fold min (map ch xs) c"
    by (simp add: foldl_conv_fold fold_map comp_def)
  also have "\<dots> = Min (set (c # map ch xs))"
    by (rule Min.set_eq_fold[symmetric])
  finally show ?thesis by simp
qed

lemma foldl_max_Max: "foldl (\<lambda>m p. max m (ch p)) c xs = Max (insert c (ch ` set xs))"
proof -
  have "(\<lambda>p m. max m (ch p)) = (\<lambda>p. max (ch p))"
    by (simp add: fun_eq_iff max.commute)
  then have "foldl (\<lambda>m p. max m (ch p)) c xs = fold max (map ch xs) c"
    by (simp add: foldl_conv_fold fold_map comp_def)
  also have "\<dots> = Max (set (c # map ch xs))"
    by (rule Max.set_eq_fold[symmetric])
  finally show ?thesis by simp
qed

lemma channelRange_Min_Max:
  "channelRange ch box = Max (insert 0 (ch ` set box)) - Min (insert 255 (ch ` set box))"
  by (simp add: channelRange_def foldl_min_Min foldl_max_Max)

lemma channelRange_red_blue:
  assumes "set box = {redPixel, bluePixel}"
  shows "channelRange r box = 255" "channelRange g box = 0" "channelRange b box = 255"
  using assms by (simp_all add: channelRange_Min_Max redPixel_def bluePixel_def)

lemma red_blue_key: "b redPixel < b bluePixel" and red_ne_blue: "redPixel \<noteq> bluePixel"
  by (simp_all add: redPixel_def bluePixel_def)

lemma roundDiv_scaled: "0 < m \<Longrightarrow> roundDiv (int (k * m)) (c * m) = (2 * int k + int c) div (2 * int c)"
proof -
  assume "0 < m"
  have "2 * int (k * m) + int (c * m) = (2 * int k + int c) * int m"
    by (simp add: algebra_simps)
  moreover have "2 * int (c * m) = (2 * int c) * int m" by simp
  ultimately have "roundDiv (int (k * m)) (c * m) = ((2 * int k + int c) * int m) div ((2 * int c) * int m)"
    by (simp only: roundDiv_def)
  also have "\<dots> = (2 * int k + int c) div (2 * int c)"
    using \<open>0 < m\<close> by simp
  finally show ?thesis .
qed

text \<open>
  A sample of 4 m red and m blue pixels is sorted by the blue channel and cut at the median
  index \<open>5 m div 2\<close>: the first box holds red pixels only, the second one the remaining red
  pixels and all the blue ones.
\<close>

lemma splitBox_red_then_blue:
  assumes "0 < m" and "set box \<subseteq> {redPixel, bluePixel}"
    and "count_list box redPixel = 4 * m" and "count_list box bluePixel = m"
  shows "splitBox box = [replicate (5 * m div 2) redPixel,
                         replicate (4 * m - 5 * m div 2) redPixel @ replicate m bluePixel]"
proof -
  have len: "length box = 5 * m"
    using length_two_counts[OF red_ne_blue assms(2)] assms(3,4) by simp
  have "redPixel \<in> set box" "bluePixel \<in> set box"
    using assms(1,3,4) by (metis count_list_0_iff mult_is_0 not_gr_zero zero_neq_numeral)+
  with assms(2) have "set box = {redPixel, bluePixel}" by auto
  note rng = channelRange_red_blue[OF this]
  have sorted: "sort_key b box = replicate (4 * m) redPixel @ replicate m bluePixel"
    using sort_key_two[of b redPixel bluePixel box, OF red_blue_key assms(2)] assms(3,4) by simp
  have le: "5 * m div 2 \<le> 4 * m" by simp
  have tk: "take (5 * m div 2) (sort_key b box) = replicate (5 * m div 2) redPixel"
    unfolding sorted using le by (simp add: min_def)
  have dr: "drop (5 * m div 2) (sort_key b box)
              = replicate (4 * m - 5 * m div 2) redPixel @ replicate m bluePixel"
    unfolding sorted using le by simp
  from assms(1) len have "length box \<noteq> 0" by simp
  then show ?thesis
    by (simp add: splitBox_def rng Let_def len tk dr del: length_0_conv)
qed

lemma splitLoop_red_then_blue:
  assumes "0 < m" and "set box \<subseteq> {redPixel, bluePixel}"
    and "count_list box redPixel = 4 * m" and "count_list box bluePixel = m"
  shows "splitLoop 2 (length box) [box]
           = Some [replicate (5 * m div 2) redPixel,
                   replicate (4 * m - 5 * m div 2) redPixel @ replicate m bluePixel]"
proof -
  have len: "length box = 5 * m"
    using length_two_counts[OF red_ne_blue assms(2)] assms(3,4) by simp
  have "splitLoop 2 (length box) [box] = splitLoop 2 (length box) (concat (map splitBox [box]))"
    using assms(1) by (subst splitLoop.simps) (simp add: len)
  also have "\<dots> = splitLoop 2 (length box)
      [replicate (5 * m div 2) redPixel, replicate (4 * m - 5 * m div 2) redPixel @ replicate m bluePixel]"
    by (simp add: splitBox_red_then_blue[OF assms])
  also have "\<dots> = Some [replicate (5 * m div 2) redPixel,
                         replicate (4 * m - 5 * m div 2) redPixel @ replicate m bluePixel]"
    by (subst splitLoop.simps) simp
  finally show ?thesis .
qed

lemma roundDiv_zero: "0 < c \<Longrightarrow> roundDiv 0 c = 0"
  by (simp add: roundDiv_def)

lemma averageColor_all_red:
  assumes "0 < n"
  shows "averageColor (replicate n redPixel) = \<lparr>r = 255, g = 0, b = 0, count = n\<rparr>"
proof -
  have "roundDiv (int n * 255) n = 255"
    using roundDiv_scaled[OF assms, of 255 1] by (simp add: mult.commute)
  then show ?thesis
    using assms by (simp add: averageColor_def sum_list_replicate redPixel_def Let_def roundDiv_zero)
qed

lemma averageColor_red_blue:
  assumes "0 < i + j"
  shows "averageColor (replicate i redPixel @ replicate j bluePixel)
           = \<lparr>r = roundDiv (255 * int i) (i + j), g = 0, b = roundDiv (255 * int j) (i + j),
              count = i + j\<rparr>"
  using assms
  by (simp add: averageColor_def sum_list_replicate redPixel_def bluePixel_def Let_def roundDiv_zero
      mult.commute)

lemma halves:
  fixes m :: nat
  assumes "0 < m"
  shows "0 < 5 * m div 2" and "4 * m - 5 * m div 2 + m = 5 * m - 5 * m div 2"
    and "0 < 5 * m - 5 * m div 2"
    and "5 * m - 5 * m div 2 \<le> 5 * m div 2 \<longleftrightarrow> even m"
    and "5 * m div 2 \<le> 5 * m - 5 * m div 2" and "5 * m - 5 * m div 2 \<le> 3 * m"
  using assms by presburger+

lemma sort_two: "sort_key f [x, y] = (if f x \<le> f y then [x, y] else [y, x])"
  by simp

lemma medianCut_red_then_blue:
  assumes "0 < m" and "set box \<subseteq> {redPixel, bluePixel}"
    and "count_list box redPixel = 4 * m" and "count_list box bluePixel = m"
  shows "medianCut box 2
           = Some (if even m then [redBucket m, mixedBucket m] else [mixedBucket m, redBucket m])"
proof -
  have len: "length box = 5 * m"
    using length_two_counts[OF red_ne_blue assms(2)] assms(3,4) by simp
  with assms(1) have ne: "length box \<noteq> 0" by simp
  have A: "averageColor (replicate (5 * m div 2) redPixel) = redBucket m"
    using averageColor_all_red[OF halves(1)[OF assms(1)]] by (simp add: redBucket_def)
  have B: "averageColor (replicate (4 * m - 5 * m div 2) redPixel @ replicate m bluePixel) = mixedBucket m"
    using averageColor_red_blue[of "4 * m - 5 * m div 2" m] assms(1)
    by (simp add: mixedBucket_def halves(2)[OF assms(1)])
  have c1: "count (redBucket m) = 5 * m div 2" and c2: "count (mixedBucket m) = 5 * m - 5 * m div 2"
    by (simp_all add: redBucket_def mixedBucket_def)
  have "(- int (count (redBucket m)) \<le> - int (count (mixedBucket m))) = even m"
    unfolding c1 c2 using halves(4)[OF assms(1)] by (simp only: neg_le_iff_le of_nat_le_iff)
  then have order: "sort_key (\<lambda>c. - int (count c)) [redBucket m, mixedBucket m]
                 = (if even m then [redBucket m, mixedBucket m] else [mixedBucket m, redBucket m])"
    by (simp only: sort_two)
  have flt: "filter (\<lambda>box. length box \<noteq> 0)
               [replicate (5 * m div 2) redPixel,
                replicate (4 * m - 5 * m div 2) redPixel @ replicate m bluePixel]
             = [replicate (5 * m div 2) redPixel,
                replicate (4 * m - 5 * m div 2) redPixel @ replicate m bluePixel]"
    using halves(1)[OF assms(1)] assms(1) by simp
  have "medianCut box 2 = Some (sort_key (\<lambda>c. - int (count c))
          (map averageColor (filter (\<lambda>box. length box \<noteq> 0)
               [replicate (5 * m div 2) redPixel,
                replicate (4 * m - 5 * m div 2) redPixel @ replicate m bluePixel])))"
    using ne by (simp only: medianCut_def splitLoop_red_then_blue[OF assms] if_False option.case)
  then show ?thesis
    by (simp only: flt list.map A B order)
qed

text \<open>
  The average of the second box, for an odd m = 2 k + 1: its red and blue channels take
  seven values, depending on k.
\<close>

lemma roundDiv_eqI:
  assumes "0 < c" and "(2 * v - 1) * int c \<le> 2 * s" and "2 * s < (2 * v + 1) * int c"
  shows "roundDiv s c = v"
proof -
  have "2 * s + int c = 2 * int c * v + (2 * s + int c - 2 * int c * v)" by simp
  moreover have "0 \<le> 2 * s + int c - 2 * int c * v" using assms(2) by (simp add: algebra_simps)
  moreover have "2 * s + int c - 2 * int c * v < 2 * int c" using assms(3) by (simp add: algebra_simps)
  ultimately have "(2 * s + int c) div (2 * int c) = v" by (rule int_div_pos_eq)
  then show ?thesis by (simp only: roundDiv_def)
qed

lemma mixedBucket_odd:
  "r (mixedBucket (2 * k + 1)) = roundDiv (255 * int (3 * k + 2)) (5 * k + 3)"
  "b (mixedBucket (2 * k + 1)) = roundDiv (255 * int (2 * k + 1)) (5 * k + 3)"
proof -
  have h: "5 * (2 * k + 1) div 2 = 5 * k + 2" by presburger
  have h2: "4 * (2 * k + 1) - (5 * k + 2) = 3 * k + 2" "5 * (2 * k + 1) - (5 * k + 2) = 5 * k + 3"
    by simp_all
  show "r (mixedBucket (2 * k + 1)) = roundDiv (255 * int (3 * k + 2)) (5 * k + 3)"
    "b (mixedBucket (2 * k + 1)) = roundDiv (255 * int (2 * k + 1)) (5 * k + 3)"
    by (simp_all only: mixedBucket_def h h2 rgb.select_convs bucket.select_convs)
qed

lemma mixture_red_channel:
  "roundDiv (255 * int (3 * k + 2)) (5 * k + 3) =
     (if k = 0 then 170 else if k = 1 then 159 else if k = 2 then 157 else if k = 3 then 156
      else if k \<le> 6 then 155 else if k \<le> 19 then 154 else 153)"
  by (auto intro!: roundDiv_eqI)

lemma mixture_blue_channel:
  "roundDiv (255 * int (2 * k + 1)) (5 * k + 3) =
     (if k = 0 then 85 else if k = 1 then 96 else if k = 2 then 98 else if k = 3 then 99
      else if k \<le> 6 then 100 else if k \<le> 19 then 101 else 102)"
  by (auto intro!: roundDiv_eqI)

section \<open>Colour names and the palette\<close>

lemma colorDistance_nonneg: "0 \<le> colorDistance x y"
  by (simp add: colorDistance_def Let_def)

lemma nearer_settled:
  assumes "fst st = Some 0"
  shows "nearer x nm st h = st"
proof (cases "hexToRgb h")
  case None
  then show ?thesis by (simp add: nearer_def)
next
  case (Some c)
  have "\<not> colorDistance x c < 0"
    using colorDistance_nonneg[of x c] by (simp add: not_less)
  with Some assms show ?thesis by (simp add: nearer_def Let_def)
qed

lemma foldl_nearer_settled: "fst st = Some 0 \<Longrightarrow> foldl (nearer x nm) st hs = st"
  by (induction hs) (simp_all add: nearer_settled)

lemma foldl_names_settled:
  "fst st = Some 0 \<Longrightarrow> foldl (\<lambda>st (nm, hexColors). foldl (nearer x nm) st hexColors) st lexicon = st"
  by (induction lexicon) (auto simp: foldl_nearer_settled)

lemma hexToRgb_FF0000: "hexToRgb (js ''#FF0000'') = Some \<lparr>r = 255, g = 0, b = 0\<rparr>"
  by (simp add: hexToRgb_def hexPair_def hexDigit_def js_def)

lemma COLOR_NAMES_head: "\<exists>hs rest. COLOR_NAMES = (redName, js ''#FF0000'' # hs) # rest"
  by (simp add: COLOR_NAMES_def redName_def)

lemma findNearestColorName_pure_red:
  assumes "r x = 255" and "g x = 0" and "b x = 0"
  shows "findNearestColorName x = Some redName"
proof -
  obtain hs rest where lex: "COLOR_NAMES = (redName, js ''#FF0000'' # hs) # rest"
    using COLOR_NAMES_head by blast
  have first: "nearer x redName (None, None) (js ''#FF0000'') = (Some 0, Some redName)"
    using assms by (simp add: nearer_def hexToRgb_FF0000 colorDistance_def)
  have "foldl (nearer x redName) (None, None) (js ''#FF0000'' # hs) = (Some 0, Some redName)"
    by (simp add: first foldl_nearer_settled)
  then have "foldl (\<lambda>st (nm, hexColors). foldl (nearer x nm) st hexColors) (None, None) COLOR_NAMES
               = (Some 0, Some redName)"
    unfolding lex by (simp add: foldl_names_settled)
  then show ?thesis
    by (simp add: findNearestColorName_def nearestIn_def)
qed

text \<open>
  The nearest names of the averages of the second box: (170, 0, 85) is nearest to the crimson
  entry of the red name, the other ones to the first entry of the purple name.
\<close>

lemma nearest_170_85:
  assumes "r x = 170" and "g x = 0" and "b x = 85"
  shows "findNearestColorName x = Some redName"
  by (simp add: findNearestColorName_def nearestIn_def COLOR_NAMES_def nearer_def hexToRgb_def
      hexPair_def hexDigit_def js_def colorDistance_def Let_def purpleName_def redName_def assms)

lemma nearest_159_96:
  assumes "r x = 159" and "g x = 0" and "b x = 96"
  shows "findNearestColorName x = Some purpleName"
  by (simp add: findNearestColorName_def nearestIn_def COLOR_NAMES_def nearer_def hexToRgb_def
      hexPair_def hexDigit_def js_def colorDistance_def Let_def purpleName_def redName_def assms)

lemma nearest_157_98:
  assumes "r x = 157" and "g x = 0" and "b x = 98"
  shows "findNearestColorName x = Some purpleName"
  by (simp add: findNearestColorName_def nearestIn_def COLOR_NAMES_def nearer_def hexToRgb_def
      hexPair_def hexDigit_def js_def colorDistance_def Let_def purpleName_def redName_def assms)

lemma nearest_156_99:
  assumes "r x = 156" and "g x = 0" and "b x = 99"
  shows "findNearestColorName x = Some purpleName"
  by (simp add: findNearestColorName_def nearestIn_def COLOR_NAMES_def nearer_def hexToRgb_def
      hexPair_def hexDigit_def js_def colorDistance_def Let_def purpleName_def redName_def assms)

lemma nearest_155_100:
  assumes "r x = 155" and "g x = 0" and "b x = 100"
  shows "findNearestColorName x = Some purpleName"
  by (simp add: findNearestColorName_def nearestIn_def COLOR_NAMES_def nearer_def hexToRgb_def
      hexPair_def hexDigit_def js_def colorDistance_def Let_def purpleName_def redName_def assms)

lemma nearest_154_101:
  assumes "r x = 154" and "g x = 0" and "b x = 101"
  shows "findNearestColorName x = Some purpleName"
  by (simp add: findNearestColorName_def nearestIn_def COLOR_NAMES_def nearer_def hexToRgb_def
      hexPair_def hexDigit_def js_def colorDistance_def Let_def purpleName_def redName_def assms)

lemma nearest_153_102:
  assumes "r x = 153" and "g x = 0" and "b x = 102"
  shows "findNearestColorName x = Some purpleName"
  by (simp add: findNearestColorName_def nearestIn_def COLOR_NAMES_def nearer_def hexToRgb_def
      hexPair_def hexDigit_def js_def colorDistance_def Let_def purpleName_def redName_def assms)

text \<open>
  The palette of \<open>detectColors\<close>, entry by entry.
\<close>

lemma detectColors_toResult:
  "detectColors pixels k = map_option (map (toResult (length pixels))) (medianCut pixels k)"
  by (simp add: detectColors_def toResult_def[abs_def])

lemma toResult_fields:
  "name (toResult n c) = findNearestColorName c"
  "rgbOf (toResult n c) = \<lparr>r = r c, g = g c, b = b c\<rparr>"
  "c' \<le> n \<Longrightarrow> 0 < n \<Longrightarrow> count c = c' \<Longrightarrow> confidence (toResult n c) = real c' / real n"
  by (simp_all add: toResult_def min_def)

lemma bucket_fields:
  "r (redBucket m) = 255" "g (redBucket m) = 0" "b (redBucket m) = 0"
  "count (redBucket m) = 5 * m div 2"
  "g (mixedBucket m) = 0" "count (mixedBucket m) = 5 * m - 5 * m div 2"
  by (simp_all add: redBucket_def mixedBucket_def)

lemma mixedBucket_even:
  assumes "0 < k"
  shows "r (mixedBucket (2 * k)) = 153" and "b (mixedBucket (2 * k)) = 102"
proof -
  have h: "5 * (2 * k) div 2 = 5 * k" "4 * (2 * k) - 5 * k = 3 * k" "5 * (2 * k) - 5 * k = 5 * k"
    by simp_all
  have "roundDiv (int (765 * k)) (5 * k) = 153" "roundDiv (int (510 * k)) (5 * k) = 102"
    using roundDiv_scaled[OF assms, of 765 5] roundDiv_scaled[OF assms, of 510 5] by simp_all
  then show "r (mixedBucket (2 * k)) = 153" and "b (mixedBucket (2 * k)) = 102"
    by (simp_all add: mixedBucket_def h)
qed

lemma halves_more:
  fixes m :: nat
  assumes "0 < m"
  shows "5 * m div 2 \<le> 5 * m" and "5 * m - 5 * m div 2 \<le> 5 * m"
    and "5 * m \<le> 2 * (5 * m - 5 * m div 2)"
    and "5 * (5 * m - 5 * m div 2) \<le> 3 * (5 * m)"
    and "even m \<Longrightarrow> 5 * m - 5 * m div 2 = 5 * m div 2"
    and "even m \<Longrightarrow> 2 * (5 * m div 2) = 5 * m"
    and "odd m \<Longrightarrow> 5 * m < 2 * (5 * m - 5 * m div 2)"
  using assms
  by (simp, simp, linarith, linarith, (auto elim!: evenE)[1], (auto elim!: evenE)[1], presburger)

lemma purple_ne_red: "purpleName \<noteq> redName"
  by (simp add: purpleName_def redName_def)

lemma mixture_name_even:
  assumes "0 < m" and "even m"
  shows "findNearestColorName (mixedBucket m) = Some purpleName"
proof -
  from assms obtain k where k: "m = 2 * k" and k0: "0 < k" by (auto elim: evenE)
  show ?thesis
    unfolding k by (rule nearest_153_102) (simp_all add: mixedBucket_even[OF k0] bucket_fields)
qed

lemma mixture_name_odd:
  assumes "odd m"
  shows "findNearestColorName (mixedBucket m) = Some (if m = 1 then redName else purpleName)"
proof -
  from assms obtain k where k: "m = 2 * k + 1" by (auto elim: oddE)
  have g0: "g (mixedBucket (2 * k + 1)) = 0" by (simp add: bucket_fields)
  note ch = mixedBucket_odd[of k, unfolded mixture_red_channel mixture_blue_channel]
  consider "k = 0" | "k = 1" | "k = 2" | "k = 3" | "4 \<le> k" "k \<le> 6" | "7 \<le> k" "k \<le> 19" | "20 \<le> k"
    by linarith
  then have "findNearestColorName (mixedBucket (2 * k + 1)) = Some (if k = 0 then redName else purpleName)"
  proof cases
    case 1
    then show ?thesis using nearest_170_85[OF _ g0] ch by simp
  next
    case 2
    then show ?thesis using nearest_159_96[OF _ g0] ch by simp
  next
    case 3
    then show ?thesis using nearest_157_98[OF _ g0] ch by simp
  next
    case 4
    then show ?thesis using nearest_156_99[OF _ g0] ch by simp
  next
    case 5
    then show ?thesis using nearest_155_100[OF _ g0] ch by simp
  next
    case 6
    then show ?thesis using nearest_154_101[OF _ g0] ch by simp
  next
    case 7
    then show ?thesis using nearest_153_102[OF _ g0] ch by simp
  qed
  then show ?thesis by (simp add: k)
qed

text \<open>
  C5 (amended). For a sample of 5 m opaque pixels, 4 m of pure red and m of pure blue in any
  order, \<open>detectColors\<close> with two colours returns a palette of two entries. The median index
  does not separate the colours: one bucket holds the first half of the reds (rounded down),
  the other the rest of the reds and all the blues. The confidence of the first entry is the
  size of the larger bucket over the sample size, between 0.5 and 0.6, never about 0.8. The
  nearest name of the first entry is the red entry of the lexicon exactly when m is even or
  m is 1. When m is even the buckets have the same size, the first entry is pure red, the
  second is the mixture (153, 0, 102), named purple, and both confidences are 0.5. When m is
  odd the first entry is the mixture, with confidence above 0.5, named purple unless m is 1,
  and the pure red entry, whose nearest name is red, is the second one.
\<close>

theorem detectColors_red_blue_palette:
  assumes "0 < m" and "set pixels \<subseteq> {redPixel, bluePixel}"
    and "count_list pixels redPixel = 4 * m" and "count_list pixels bluePixel = m"
  shows "\<exists>e1 e2. detectColors pixels 2 = Some [e1, e2] \<and>
           confidence e1 = real (5 * m - 5 * m div 2) / real (5 * m) \<and>
           confidence e2 = real (5 * m div 2) / real (5 * m) \<and>
           1 / 2 \<le> confidence e1 \<and> confidence e1 \<le> 3 / 5 \<and>
           (name e1 = Some redName \<longleftrightarrow> even m \<or> m = 1) \<and>
           (even m \<longrightarrow>
              rgbOf e1 = \<lparr>r = 255, g = 0, b = 0\<rparr> \<and> confidence e1 = 1 / 2 \<and>
              name e2 = Some purpleName \<and> rgbOf e2 = \<lparr>r = 153, g = 0, b = 102\<rparr> \<and>
              confidence e2 = 1 / 2) \<and>
           (odd m \<longrightarrow>
              rgbOf e1 = \<lparr>r = r (mixedBucket m), g = 0, b = b (mixedBucket m)\<rparr> \<and>
              1 / 2 < confidence e1 \<and> (1 < m \<longrightarrow> name e1 = Some purpleName) \<and>
              name e2 = Some redName \<and> rgbOf e2 = \<lparr>r = 255, g = 0, b = 0\<rparr>)"
proof -
  define n where "n = 5 * m"
  define lo where "lo = 5 * m div 2"
  define hi where "hi = 5 * m - 5 * m div 2"
  let ?red = "toResult n (redBucket m)" and ?mix = "toResult n (mixedBucket m)"
  have len: "length pixels = n"
    using length_two_counts[OF red_ne_blue assms(2)] assms(3,4) by (simp add: n_def)
  have n0: "0 < n" using assms(1) by (simp add: n_def)
  have nat_facts: "lo \<le> n" "hi \<le> n" "n \<le> 2 * hi" "5 * hi \<le> 3 * n"
    "even m \<Longrightarrow> hi = lo" "even m \<Longrightarrow> 2 * lo = n" "odd m \<Longrightarrow> n < 2 * hi"
    unfolding n_def lo_def hi_def
    by (fact halves_more(1)[OF assms(1)], fact halves_more(2)[OF assms(1)],
        fact halves_more(3)[OF assms(1)], fact halves_more(4)[OF assms(1)],
        erule halves_more(5)[OF assms(1)], erule halves_more(6)[OF assms(1)],
        erule halves_more(7)[OF assms(1)])
  have real_facts: "real n \<le> 2 * real hi" "5 * real hi \<le> 3 * real n"
    "even m \<Longrightarrow> 2 * real lo = real n" "odd m \<Longrightarrow> real n < 2 * real hi"
    using nat_facts(3,4,6,7) by linarith+
  have rn0: "0 < real n" using n0 by simp
  have dc: "detectColors pixels 2 = Some (if even m then [?red, ?mix] else [?mix, ?red])"
    by (simp add: detectColors_toResult medianCut_red_then_blue[OF assms] len)
  have red_name: "name ?red = Some redName"
    by (simp only: toResult_fields(1)) (rule findNearestColorName_pure_red, simp_all add: bucket_fields)
  have red_rgb: "rgbOf ?red = \<lparr>r = 255, g = 0, b = 0\<rparr>"
    by (simp only: toResult_fields(2) bucket_fields)
  have mix_rgb: "rgbOf ?mix = \<lparr>r = r (mixedBucket m), g = 0, b = b (mixedBucket m)\<rparr>"
    by (simp only: toResult_fields(2) bucket_fields)
  have red_conf: "confidence ?red = real lo / real n"
    by (rule toResult_fields(3)[OF nat_facts(1) n0]) (simp add: bucket_fields lo_def)
  have mix_conf: "confidence ?mix = real hi / real n"
    by (rule toResult_fields(3)[OF nat_facts(2) n0]) (simp add: bucket_fields hi_def)
  have lower: "1 / 2 \<le> real hi / real n"
    using real_facts(1) rn0 by (simp add: le_divide_eq)
  have upper: "real hi / real n \<le> 3 / 5"
    using real_facts(2) rn0 by (simp add: divide_le_eq)
  have goal: "\<exists>e1 e2. detectColors pixels 2 = Some [e1, e2] \<and>
           confidence e1 = real hi / real n \<and>
           confidence e2 = real lo / real n \<and>
           1 / 2 \<le> confidence e1 \<and> confidence e1 \<le> 3 / 5 \<and>
           (name e1 = Some redName \<longleftrightarrow> even m \<or> m = 1) \<and>
           (even m \<longrightarrow>
              rgbOf e1 = \<lparr>r = 255, g = 0, b = 0\<rparr> \<and> confidence e1 = 1 / 2 \<and>
              name e2 = Some purpleName \<and> rgbOf e2 = \<lparr>r = 153, g = 0, b = 102\<rparr> \<and>
              confidence e2 = 1 / 2) \<and>
           (odd m \<longrightarrow>
              rgbOf e1 = \<lparr>r = r (mixedBucket m), g = 0, b = b (mixedBucket m)\<rparr> \<and>
              1 / 2 < confidence e1 \<and> (1 < m \<longrightarrow> name e1 = Some purpleName) \<and>
              name e2 = Some redName \<and> rgbOf e2 = \<lparr>r = 255, g = 0, b = 0\<rparr>)"
  proof (cases "even m")
    case True
    then obtain k where k: "m = 2 * k" by (auto elim: evenE)
    with assms(1) have k0: "0 < k" by simp
    have eq: "hi = lo" using True by (rule nat_facts(5))
    have half: "real lo / real n = 1 / 2"
      using real_facts(3)[OF True] rn0 by (simp add: divide_eq_eq)
    have mix153: "rgbOf ?mix = \<lparr>r = 153, g = 0, b = 102\<rparr>"
      unfolding mix_rgb using mixedBucket_even[OF k0] by (simp add: k)
    have mix_name: "name ?mix = Some purpleName"
      by (simp only: toResult_fields(1) mixture_name_even[OF assms(1) True])
    have res: "detectColors pixels 2 = Some [?red, ?mix]" using dc True by simp
    have c1: "confidence ?red = real hi / real n" using red_conf eq by simp
    have c2: "confidence ?mix = real lo / real n" using mix_conf eq by simp
    have c3: "confidence ?red = 1 / 2" "confidence ?mix = 1 / 2"
      using red_conf mix_conf eq half by simp_all
    have b1: "1 / 2 \<le> confidence ?red" "confidence ?red \<le> 3 / 5"
      using c3 by simp_all
    from res c1 c2 c3 b1 True red_name red_rgb mix153 mix_name show ?thesis by blast
  next
    case False
    have strict: "1 / 2 < confidence ?mix"
      using real_facts(4)[OF False] rn0 by (simp add: mix_conf less_divide_eq)
    have res: "detectColors pixels 2 = Some [?mix, ?red]" using dc False by simp
    have b1: "1 / 2 \<le> confidence ?mix" "confidence ?mix \<le> 3 / 5"
      using lower upper by (simp_all add: mix_conf)
    have mix_name: "name ?mix = Some (if m = 1 then redName else purpleName)"
      by (simp only: toResult_fields(1) mixture_name_odd[OF False])
    have nm1: "name ?mix = Some redName \<longleftrightarrow> even m \<or> m = 1"
      using False purple_ne_red by (simp add: mix_name)
    have nm2: "1 < m \<longrightarrow> name ?mix = Some purpleName"
      by (simp add: mix_name)
    from res mix_conf red_conf b1 strict False red_name red_rgb mix_rgb nm1 nm2 show ?thesis by blast
  qed
  then show ?thesis by (simp only: n_def lo_def hi_def)
qed

theorem detectColors_red_blue_palette_witness:
  "(0::nat) < 2 \<and> set sample10 \<subseteq> {redPixel, bluePixel} \<and>
   count_list sample10 redPixel = 4 * 2 \<and> count_list sample10 bluePixel = 2 \<and>
   (\<exists>e1 e2. detectColors sample10 2 = Some [e1, e2] \<and>
      name e1 = Some redName \<and> rgbOf e1 = \<lparr>r = 255, g = 0, b = 0\<rparr> \<and> confidence e1 = 1 / 2 \<and>
      name e2 = Some purpleName \<and> rgbOf e2 = \<lparr>r = 153, g = 0, b = 102\<rparr> \<and> confidence e2 = 1 / 2) \<and>
   (0::nat) < 3 \<and> set sample15 \<subseteq> {redPixel, bluePixel} \<and>
   count_list sample15 redPixel = 4 * 3 \<and> count_list sample15 bluePixel = 3 \<and>
   (\<exists>e1 e2. detectColors sample15 2 = Some [e1, e2] \<and>
      name e1 = Some purpleName \<and> confidence e1 = 8 / 15 \<and>
      name e2 = Some redName \<and> rgbOf e2 = \<lparr>r = 255, g = 0, b = 0\<rparr> \<and> confidence e2 = 7 / 15)"
proof -
  have h1: "(0::nat) < 2" by simp
  have h2: "set sample10 \<subseteq> {redPixel, bluePixel}" by (auto simp: sample10_def)
  have h3: "count_list sample10 redPixel = 4 * 2" "count_list sample10 bluePixel = 2"
    by (simp_all add: sample10_def redPixel_def bluePixel_def numeral_eq_Suc)
  have k1: "(0::nat) < 3" by simp
  have k2: "set sample15 \<subseteq> {redPixel, bluePixel}" by (auto simp: sample15_def)
  have k3: "count_list sample15 redPixel = 4 * 3" "count_list sample15 bluePixel = 3"
    by (simp_all add: sample15_def redPixel_def bluePixel_def numeral_eq_Suc)
  have ten: "\<exists>e1 e2. detectColors sample10 2 = Some [e1, e2] \<and>
      name e1 = Some redName \<and> rgbOf e1 = \<lparr>r = 255, g = 0, b = 0\<rparr> \<and> confidence e1 = 1 / 2 \<and>
      name e2 = Some purpleName \<and> rgbOf e2 = \<lparr>r = 153, g = 0, b = 102\<rparr> \<and> confidence e2 = 1 / 2"
    using detectColors_red_blue_palette[OF h1 h2 h3] by auto
  have fifteen: "\<exists>e1 e2. detectColors sample15 2 = Some [e1, e2] \<and>
      name e1 = Some purpleName \<and> confidence e1 = 8 / 15 \<and>
      name e2 = Some redName \<and> rgbOf e2 = \<lparr>r = 255, g = 0, b = 0\<rparr> \<and> confidence e2 = 7 / 15"
    using detectColors_red_blue_palette[OF k1 k2 k3] by auto
  from h1 h2 h3 k1 k2 k3 ten fifteen show ?thesis by blast
qed

text \<open>
  C5 as stated fails on ten pixels, eight red and two blue: the confidence of both entries of
  the palette is 0.5, not about 0.8. It also fails on fifteen pixels, twelve red and three
  blue: the first entry is the mixture (159, 0, 96), whose nearest name is purple, with
  confidence 8/15; the red entry is the second one.
\<close>

theorem detectColors_confidence_counterexample:
  "length sample10 = 10 \<and> count_list sample10 redPixel = 8 \<and> count_list sample10 bluePixel = 2 \<and>
   map_option (map confidence) (detectColors sample10 2) = Some [1 / 2, 1 / 2] \<and>
   \<not> \<bar>1 / 2 - 8 / 10\<bar> \<le> (1 / 10 :: real) \<and>
   length sample15 = 15 \<and> count_list sample15 redPixel = 12 \<and> count_list sample15 bluePixel = 3 \<and>
   map_option (map name) (detectColors sample15 2) = Some [Some purpleName, Some redName] \<and>
   map_option (map rgbOf) (detectColors sample15 2)
     = Some [\<lparr>r = 159, g = 0, b = 96\<rparr>, \<lparr>r = 255, g = 0, b = 0\<rparr>] \<and>
   map_option (map confidence) (detectColors sample15 2) = Some [8 / 15, 7 / 15] \<and>
   purpleName \<noteq> redName"
proof -
  have h1: "(0::nat) < 2" by simp
  have h2: "set sample10 \<subseteq> {redPixel, bluePixel}" by (auto simp: sample10_def)
  have h3: "count_list sample10 redPixel = 4 * 2" "count_list sample10 bluePixel = 2"
    by (simp_all add: sample10_def redPixel_def bluePixel_def numeral_eq_Suc)
  have k1: "(0::nat) < 3" by simp
  have k2: "set sample15 \<subseteq> {redPixel, bluePixel}" by (auto simp: sample15_def)
  have k3: "count_list sample15 redPixel = 4 * 3" "count_list sample15 bluePixel = 3"
    by (simp_all add: sample15_def redPixel_def bluePixel_def numeral_eq_Suc)
  have len: "length sample10 = 10" "length sample15 = 15"
    by (simp_all add: sample10_def sample15_def)
  have m10: "medianCut sample10 2 = Some [redBucket 2, mixedBucket 2]"
    using medianCut_red_then_blue[OF h1 h2 h3] by simp
  have m15: "medianCut sample15 2 = Some [mixedBucket 3, redBucket 3]"
    using medianCut_red_then_blue[OF k1 k2 k3] by simp
  have mix15: "r (mixedBucket 3) = 159" "b (mixedBucket 3) = 96"
    using mixedBucket_odd[of 1] by (simp_all add: roundDiv_def)
  have names: "findNearestColorName (mixedBucket 3) = Some purpleName"
    "findNearestColorName (redBucket 3) = Some redName"
    using mixture_name_odd[of 3]
    by (simp, intro findNearestColorName_pure_red) (simp_all add: bucket_fields)
  have c10: "map_option (map confidence) (detectColors sample10 2) = Some [1 / 2, 1 / 2]"
    by (simp add: detectColors_toResult m10 len toResult_def bucket_fields)
  have n15: "map_option (map name) (detectColors sample15 2) = Some [Some purpleName, Some redName]"
    by (simp add: detectColors_toResult m15 toResult_fields names)
  have r15: "map_option (map rgbOf) (detectColors sample15 2)
     = Some [\<lparr>r = 159, g = 0, b = 96\<rparr>, \<lparr>r = 255, g = 0, b = 0\<rparr>]"
    by (simp add: detectColors_toResult m15 toResult_fields bucket_fields mix15)
  have c15: "map_option (map confidence) (detectColors sample15 2) = Some [8 / 15, 7 / 15]"
    by (simp add: detectColors_toResult m15 len toResult_def bucket_fields)
  have ne: "\<not> \<bar>1 / 2 - 8 / 10\<bar> \<le> (1 / 10 :: real)" by simp
  from len h3 k3 c10 n15 r15 c15 ne purple_ne_red show ?thesis by simp
qed

end
